theory Spec2Isabelle
  imports Main "HOL-Library.AList" "HOL-Library.Sublist"
begin

section \<open>The parsed KGML document\<close>

text \<open>
  \<^verbatim>\<open>parse_KGML.py\<close> reads a KGML file with \<^verbatim>\<open>xml.etree.ElementTree\<close> and works on
  the parsed tree. An element has a tag, a dictionary of attributes and a list of child
  elements. The attribute dictionary is an association list read with \<open>map_of\<close>.
\<close>

datatype element =
  Element (tag: string) (attrib: "(string \<times> string) list") (children: "element list")

text \<open>
  The exceptions the conversion can raise: \<^verbatim>\<open>d[k]\<close> on a missing key raises
  \<^verbatim>\<open>KeyError(k)\<close>, and \<^verbatim>\<open>el.find('graphics')\<close> returns \<^verbatim>\<open>None\<close> when there is no
  such child, so that \<^verbatim>\<open>.attrib\<close> on it raises \<^verbatim>\<open>AttributeError\<close>.
\<close>

datatype error = KeyError string | AttributeError

text \<open>
  Sequencing: when the first computation raises, the exception propagates and the rest
  is not run.
\<close>

definition bind :: "error + 'a \<Rightarrow> ('a \<Rightarrow> error + 'b) \<Rightarrow> error + 'b" where
  "bind m f = (case m of Inl e \<Rightarrow> Inl e | Inr x \<Rightarrow> f x)"

text \<open>\<^verbatim>\<open>d[k]\<close> on a dictionary.\<close>

definition getitem :: "(string \<times> 'v) list \<Rightarrow> string \<Rightarrow> error + 'v" where
  "getitem d k = (case map_of d k of None \<Rightarrow> Inl (KeyError k) | Some v \<Rightarrow> Inr v)"

text \<open>
  \<^verbatim>\<open>getiterator(tag)\<close>: the element itself and all its descendants in document order,
  those with the given tag only (\<^verbatim>\<open>'*'\<close> keeps every element).
\<close>

fun iter_all :: "element \<Rightarrow> element list" where
  "iter_all (Element t a cs) = Element t a cs # concat (map iter_all cs)"

definition getiterator :: "string \<Rightarrow> element \<Rightarrow> element list" where
  "getiterator tg root =
     (if tg = ''*'' then iter_all root else filter (\<lambda>el. tag el = tg) (iter_all root))"

text \<open>\<^verbatim>\<open>el.find(tag)\<close> with a plain tag: the first direct child with that tag.\<close>

definition find_child :: "string \<Rightarrow> element \<Rightarrow> element option" where
  "find_child tg el = List.find (\<lambda>c. tag c = tg) (children el)"

section \<open>The graph\<close>

text \<open>
  \<^verbatim>\<open>networkx.Graph\<close> keeps an undirected simple graph as a dictionary of dictionaries:
  \<^verbatim>\<open>adj[u]\<close> holds one key per neighbour of \<^verbatim>\<open>u\<close>. The model keeps each dictionary's
  keys in the order of insertion; the attribute dictionaries stay empty in this program
  and are left out. The program also stores the pathway title on the graph object.
\<close>

type_synonym adjacency = "(string \<times> string list) list"

record graph =
  title :: string
  adj :: adjacency

text \<open>\<^verbatim>\<open>G.nodes()\<close>: the keys of the adjacency dictionary.\<close>

definition graph_nodes :: "graph \<Rightarrow> string list" where
  "graph_nodes G = map fst (adj G)"

text \<open>\<^verbatim>\<open>G.add_node(n)\<close>: a new node gets an empty neighbour dictionary, a known one is kept.\<close>

definition add_node :: "string \<Rightarrow> graph \<Rightarrow> graph" where
  "add_node n G = (if n \<in> set (map fst (adj G)) then G else G\<lparr>adj := adj G @ [(n, [])]\<rparr>)"

text \<open>\<^verbatim>\<open>adj[u][v] = {}\<close>: \<open>v\<close> becomes a key of the neighbour dictionary of \<open>u\<close>.\<close>

definition add_nbr :: "string \<Rightarrow> string \<Rightarrow> adjacency \<Rightarrow> adjacency" where
  "add_nbr u v a =
     map (\<lambda>(n, nbrs). if n = u then (n, if v \<in> set nbrs then nbrs else nbrs @ [v])
                        else (n, nbrs)) a"

text \<open>
  \<^verbatim>\<open>G.add_edge(u, v)\<close>: both endpoints are added as nodes when they are not there yet,
  then each is entered in the other's neighbour dictionary.
\<close>

definition add_edge :: "string \<Rightarrow> string \<Rightarrow> graph \<Rightarrow> graph" where
  "add_edge u v G =
     (let G1 = add_node u G;
          G2 = add_node v G1
      in G2\<lparr>adj := add_nbr v u (add_nbr u v (adj G2))\<rparr>)"

text \<open>
  \<^verbatim>\<open>G.edges()\<close>: every node's neighbours, leaving out the neighbours whose own
  adjacency has been listed before, so that an undirected edge is reported once.
\<close>

fun edges_iter :: "adjacency \<Rightarrow> string list \<Rightarrow> (string \<times> string) list" where
  "edges_iter [] seen = []"
| "edges_iter ((n, nbrs) # rest) seen =
     map (Pair n) (filter (\<lambda>nbr. nbr \<notin> set seen) nbrs) @ edges_iter rest (n # seen)"

definition edges :: "graph \<Rightarrow> (string \<times> string) list" where
  "edges G = edges_iter (adj G) []"

section \<open>The conversion\<close>

text \<open>
  The descriptor table \<^verbatim>\<open>nodes\<close> maps an entry id to \<^verbatim>\<open>(name, title, type)\<close>. The
  assignment \<^verbatim>\<open>nodes[id] = ...\<close> is \<open>AList.update\<close>: it replaces the value of a key that
  is there and appends a new key.
\<close>

type_synonym descriptor = "string \<times> string \<times> string"
type_synonym table = "(string \<times> descriptor) list"

text \<open>The accepted entry types for a \<^verbatim>\<open>filetype\<close> (lines 47-50).\<close>

definition entriestype :: "string \<Rightarrow> string list" where
  "entriestype filetype =
     (if filetype \<in> set [''organism'', ''o''] then [''gene'', ''compound'', ''map'']
      else [''ortholog'', ''map'', ''compound''])"

text \<open>
  Lines 70-71: \<^verbatim>\<open>if title[-3:] == '...': title = title[:-3]\<close>. The slice \<^verbatim>\<open>title[-3:]\<close>
  is the whole string when it has fewer than three characters.
\<close>

definition normalize_title :: "string \<Rightarrow> string" where
  "normalize_title t =
     (if drop (length t - 3) t = ''...'' then take (length t - 3) t else t)"

text \<open>
  The body of the loop over the \<^verbatim>\<open>entry\<close> elements (lines 58-75). The logging call reads
  the attributes \<^verbatim>\<open>type\<close> and \<^verbatim>\<open>id\<close> of every entry, accepted or not.
\<close>

definition entry_step :: "string list \<Rightarrow> element \<Rightarrow> graph \<times> table \<Rightarrow> error + graph \<times> table" where
  "entry_step ets el st =
     bind (getitem (attrib el) ''type'') (\<lambda>ty.
     bind (getitem (attrib el) ''id'') (\<lambda>i.
       if ty \<in> set ets then
         bind (getitem (attrib el) ''name'') (\<lambda>name.
         bind (case find_child ''graphics'' el of None \<Rightarrow> Inl AttributeError | Some g \<Rightarrow> Inr g) (\<lambda>g.
         bind (getitem (attrib g) ''name'') (\<lambda>t.
           let label = normalize_title t;
               nodes' = AList.update i (name, label, ty) (snd st)
           in Inr (if ty = ''gene'' then add_node label (fst st) else fst st, nodes'))))
       else Inr st))"

fun entries_loop :: "string list \<Rightarrow> element list \<Rightarrow> graph \<times> table \<Rightarrow> error + graph \<times> table" where
  "entries_loop ets [] st = Inr st"
| "entries_loop ets (el # els) st =
     bind (entry_step ets el st) (entries_loop ets els)"

text \<open>The body of the loop over the \<^verbatim>\<open>relation\<close> elements (lines 80-90).\<close>

definition relation_step :: "table \<Rightarrow> element \<Rightarrow> graph \<Rightarrow> error + graph" where
  "relation_step nodes rel G =
     bind (getitem (attrib rel) ''entry1'') (\<lambda>e1.
     bind (getitem (attrib rel) ''entry2'') (\<lambda>e2.
     bind (getitem nodes e1) (\<lambda>d1.
     bind (getitem nodes e2) (\<lambda>d2.
       Inr (add_edge (fst (snd d1)) (fst (snd d2)) G)))))"

fun relations_loop :: "table \<Rightarrow> element list \<Rightarrow> graph \<Rightarrow> error + graph" where
  "relations_loop nodes [] G = Inr G"
| "relations_loop nodes (rel # rels) G =
     bind (relation_step nodes rel G) (relations_loop nodes rels)"

text \<open>The tuple \<^verbatim>\<open>(tree, graph, nodes, genes, reactions)\<close> that \<^verbatim>\<open>KGML2Graph\<close> returns.\<close>

record result =
  res_tree :: element
  res_graph :: graph
  res_nodes :: table
  res_genes :: "string list"
  res_reactions :: "(string \<times> string) list"

text \<open>
  Line 53 reads the pathway title as \<^verbatim>\<open>tree.find('/').attrib['title']\<close>. Which element
  \<^verbatim>\<open>tree.find('/')\<close> is depends on the ElementTree of the interpreter:

    \<^item> with ElementTree 1.2 (Python 2.5 and 2.6) the path \<^verbatim>\<open>/\<close> is turned into \<^verbatim>\<open>./\<close>,
      which has no step, and \<^verbatim>\<open>find\<close> returns the root element itself;

    \<^item> from ElementTree 1.3 on (Python 2.7, and Python 3 up to 3.8, the last version
      that has \<^verbatim>\<open>getiterator\<close>) the path \<^verbatim>\<open>./\<close> is searched as \<^verbatim>\<open>./*\<close>, and \<^verbatim>\<open>find\<close>
      returns the first child of the root, or \<^verbatim>\<open>None\<close> for a root without children, on
      which \<^verbatim>\<open>.attrib\<close> raises \<^verbatim>\<open>AttributeError\<close>.

  Both readings are modelled, and the conversion takes the version as a parameter: what
  is proved of \<^verbatim>\<open>KGML2Graph\<close> below is proved for either.
\<close>

datatype et_version = ET_1_2 | ET_1_3

definition find_slash :: "et_version \<Rightarrow> element \<Rightarrow> element option" where
  "find_slash ver root =
     (case ver of
        ET_1_2 \<Rightarrow> Some root
      | ET_1_3 \<Rightarrow> (case children root of [] \<Rightarrow> None | c # cs \<Rightarrow> Some c))"

definition pathway_title :: "et_version \<Rightarrow> element \<Rightarrow> error + string" where
  "pathway_title ver xmltree =
     (case find_slash ver xmltree of
        None \<Rightarrow> Inl AttributeError
      | Some el \<Rightarrow> getitem (attrib el) ''title'')"

text \<open>
  \<^verbatim>\<open>KGML2Graph(xmlfile, filetype)\<close> on the tree that \<^verbatim>\<open>ET.parse(xmlfile)\<close> returned. The
  title is read (line 53) after the entry types have been chosen (lines 47 to 50) and
  before the entries and the relations are visited.
\<close>

definition KGML2Graph :: "et_version \<Rightarrow> element \<Rightarrow> string \<Rightarrow> error + result" where
  "KGML2Graph ver xmltree filetype =
     (let entriestypes = entriestype filetype in
      bind (pathway_title ver xmltree) (\<lambda>t.
      bind (entries_loop entriestypes (getiterator ''entry'' xmltree)
              (\<lparr>title = t, adj = []\<rparr>, [])) (\<lambda>st.
      bind (relations_loop (snd st) (getiterator ''relation'' xmltree) (fst st)) (\<lambda>G.
        Inr \<lparr>res_tree = xmltree, res_graph = G, res_nodes = snd st,
             res_genes = [], res_reactions = []\<rparr>))))"

text \<open>
  A call of \<^verbatim>\<open>KGML2Graph\<close> with the second argument given or left out: the parameter's
  default is \<^verbatim>\<open>'organism'\<close> (line 17).
\<close>

definition KGML2Graph_call :: "et_version \<Rightarrow> element \<Rightarrow> string option \<Rightarrow> error + result" where
  "KGML2Graph_call ver xmltree arg =
     KGML2Graph ver xmltree (case arg of None \<Rightarrow> ''organism'' | Some filetype \<Rightarrow> filetype)"

section \<open>Reading a document\<close>

text \<open>
  What the statements below say about an \<^verbatim>\<open>entry\<close> element: whether its type is one of the
  accepted types, and the table entry \<^verbatim>\<open>(id, (name, title, type))\<close> that lines 60-73
  compute from it when all the attributes they read are there.
\<close>

definition accepted :: "string list \<Rightarrow> element \<Rightarrow> bool" where
  "accepted ets el =
     (case map_of (attrib el) ''type'' of None \<Rightarrow> False | Some ty \<Rightarrow> ty \<in> set ets)"

definition entry_descriptor :: "element \<Rightarrow> (string \<times> descriptor) option" where
  "entry_descriptor el =
     (case map_of (attrib el) ''type'' of None \<Rightarrow> None | Some ty \<Rightarrow>
      case map_of (attrib el) ''id'' of None \<Rightarrow> None | Some i \<Rightarrow>
      case map_of (attrib el) ''name'' of None \<Rightarrow> None | Some name \<Rightarrow>
      case find_child ''graphics'' el of None \<Rightarrow> None | Some g \<Rightarrow>
      case map_of (attrib g) ''name'' of None \<Rightarrow> None | Some t \<Rightarrow>
        Some (i, name, normalize_title t, ty))"

text \<open>An id is registered when some accepted entry of the document carries it.\<close>

definition registered :: "string list \<Rightarrow> element \<Rightarrow> string \<Rightarrow> bool" where
  "registered ets xmltree i =
     list_ex (\<lambda>el. accepted ets el \<and> map_of (attrib el) ''id'' = Some i)
       (getiterator ''entry'' xmltree)"

text \<open>The two labels a \<^verbatim>\<open>relation\<close> element resolves to through the table (lines 80-90).\<close>

definition relation_labels :: "table \<Rightarrow> element \<Rightarrow> (string \<times> string) option" where
  "relation_labels nodes rel =
     (case map_of (attrib rel) ''entry1'' of None \<Rightarrow> None | Some e1 \<Rightarrow>
      case map_of (attrib rel) ''entry2'' of None \<Rightarrow> None | Some e2 \<Rightarrow>
      case map_of nodes e1 of None \<Rightarrow> None | Some d1 \<Rightarrow>
      case map_of nodes e2 of None \<Rightarrow> None | Some d2 \<Rightarrow>
        Some (fst (snd d1), fst (snd d2)))"

text \<open>
  Well-formedness of a document for an ElementTree version and a list of accepted types:
  the element that line 53 reads exists and has a title, and, entry by entry and
  relation by relation, every entry has a type and an id, every accepted entry has all
  the attributes of its table entry, and every relation names two registered ids. Ids
  need not be unique.
\<close>

definition entry_ok :: "string list \<Rightarrow> element \<Rightarrow> bool" where
  "entry_ok ets el =
     (map_of (attrib el) ''type'' \<noteq> None \<and> map_of (attrib el) ''id'' \<noteq> None
      \<and> (accepted ets el \<longrightarrow> entry_descriptor el \<noteq> None))"

definition relation_ok :: "string list \<Rightarrow> element \<Rightarrow> element \<Rightarrow> bool" where
  "relation_ok ets xmltree rel =
     (case map_of (attrib rel) ''entry1'' of None \<Rightarrow> False | Some e1 \<Rightarrow>
      case map_of (attrib rel) ''entry2'' of None \<Rightarrow> False | Some e2 \<Rightarrow>
        registered ets xmltree e1 \<and> registered ets xmltree e2)"

definition well_formed :: "et_version \<Rightarrow> string list \<Rightarrow> element \<Rightarrow> bool" where
  "well_formed ver ets xmltree =
     ((case pathway_title ver xmltree of Inl e \<Rightarrow> False | Inr t \<Rightarrow> True)
      \<and> list_all (entry_ok ets) (getiterator ''entry'' xmltree)
      \<and> list_all (relation_ok ets xmltree) (getiterator ''relation'' xmltree))"

text \<open>
  The explicitly registered labels (line 75: the titles of the accepted entries of type
  gene), the labels that occur in \<^verbatim>\<open>G.edges()\<close>, and the labels the relations of the
  document resolve to.
\<close>

definition gene_labels :: "string list \<Rightarrow> element \<Rightarrow> string list" where
  "gene_labels ets xmltree =
     List.map_filter
       (\<lambda>el. case entry_descriptor el of None \<Rightarrow> None
             | Some (i, name, l, ty) \<Rightarrow>
                 if accepted ets el \<and> ty = ''gene'' then Some l else None)
       (getiterator ''entry'' xmltree)"

definition edge_endpoints :: "graph \<Rightarrow> string list" where
  "edge_endpoints G = concat (map (\<lambda>(x, y). [x, y]) (edges G))"

definition relation_endpoints :: "table \<Rightarrow> element \<Rightarrow> string list" where
  "relation_endpoints nodes xmltree =
     concat (map (\<lambda>rel. case relation_labels nodes rel of None \<Rightarrow> [] | Some (a, b) \<Rightarrow> [a, b])
       (getiterator ''relation'' xmltree))"

section \<open>What the adjacency dictionary holds\<close>

text \<open>
  The neighbours a node has in the adjacency dictionary, the undirected edges as
  unordered pairs, and the invariant of the dictionary: no key and no neighbour is
  stored twice, and whenever \<open>v\<close> is a neighbour of \<open>n\<close>, \<open>n\<close> is one of \<open>v\<close>.
\<close>

definition nbrs_of :: "adjacency \<Rightarrow> string \<Rightarrow> string set" where
  "nbrs_of a n = {v. \<exists>nbrs. (n, nbrs) \<in> set a \<and> v \<in> set nbrs}"

definition edge_set :: "adjacency \<Rightarrow> string set set" where
  "edge_set a = {{n, v} | n v. v \<in> nbrs_of a n}"

definition adj_inv :: "adjacency \<Rightarrow> bool" where
  "adj_inv a \<longleftrightarrow>
     distinct (map fst a) \<and> (\<forall>p \<in> set a. distinct (snd p))
     \<and> (\<forall>n v. v \<in> nbrs_of a n \<longrightarrow> n \<in> nbrs_of a v)"

text \<open>
  A label that an entry registers as a node, and an adjacency that a relation adds.
\<close>

definition gene_label_of :: "string list \<Rightarrow> element \<Rightarrow> string \<Rightarrow> bool" where
  "gene_label_of ets el l \<longleftrightarrow>
     accepted ets el \<and> (\<exists>i name. entry_descriptor el = Some (i, name, l, ''gene''))"

definition rel_edge :: "table \<Rightarrow> element \<Rightarrow> string \<Rightarrow> string \<Rightarrow> bool" where
  "rel_edge nodes rel n w \<longleftrightarrow>
     (\<exists>a b. relation_labels nodes rel = Some (a, b) \<and> ((n = a \<and> w = b) \<or> (n = b \<and> w = a)))"

section \<open>Example documents\<close>

definition entry_el :: "string \<Rightarrow> string \<Rightarrow> string \<Rightarrow> string \<Rightarrow> element" where
  "entry_el i name ty t =
     Element ''entry'' [(''id'', i), (''name'', name), (''type'', ty)]
       [Element ''graphics'' [(''name'', t)] []]"

definition relation_el :: "string \<Rightarrow> string \<Rightarrow> element" where
  "relation_el e1 e2 = Element ''relation'' [(''entry1'', e1), (''entry2'', e2)] []"

text \<open>
  The example documents carry the pathway title twice, on the root and on a first child
  of the root, so that line 53 finds it with either ElementTree.
\<close>

definition header_el :: "string \<Rightarrow> element" where
  "header_el t = Element ''header'' [(''title'', t)] []"

text \<open>A generic (ko) pathway: two ortholog entries and one relation.\<close>

definition ko_doc :: element where
  "ko_doc = Element ''pathway'' [(''name'', ''path:ko00510''), (''title'', ''N-Glycan'')]
     [header_el ''N-Glycan'',
      entry_el ''1'' ''ko:K03845'' ''ortholog'' ''K03845'',
      entry_el ''2'' ''ko:K03846'' ''ortholog'' ''K03846'',
      relation_el ''1'' ''2'']"

definition ko_result :: result where
  "ko_result =
     \<lparr>res_tree = ko_doc,
      res_graph = \<lparr>title = ''N-Glycan'',
                   adj = [(''K03845'', [''K03846'']), (''K03846'', [''K03845''])]\<rparr>,
      res_nodes = [(''1'', ''ko:K03845'', ''K03845'', ''ortholog''),
                   (''2'', ''ko:K03846'', ''K03846'', ''ortholog'')],
      res_genes = [], res_reactions = []\<rparr>"

text \<open>
  An organism pathway with a multi-gene title, a compound, an ortholog entry and an
  entry id that is used twice, and the result of converting it in organism mode.
\<close>

definition sample_doc :: element where
  "sample_doc =
     Element ''pathway'' [(''name'', ''path:hsa00510''), (''title'', ''N-Glycan biosynthesis'')]
       [header_el ''N-Glycan biosynthesis'',
        entry_el ''1'' ''hsa:79053'' ''gene'' ''ALG8'',
        entry_el ''2'' ''hsa:85365 hsa:200810'' ''gene'' ''ALG2...'',
        entry_el ''3'' ''cpd:C00001'' ''compound'' ''C00001'',
        entry_el ''4'' ''ko:K03845'' ''ortholog'' ''K03845'',
        entry_el ''1'' ''hsa:79087'' ''gene'' ''ALG12'',
        relation_el ''1'' ''2'',
        relation_el ''2'' ''1'',
        relation_el ''3'' ''2'']"

definition sample_result :: result where
  "sample_result =
     \<lparr>res_tree = sample_doc,
      res_graph = \<lparr>title = ''N-Glycan biosynthesis'',
                   adj = [(''ALG8'', []),
                          (''ALG2'', [''ALG12'', ''C00001'']),
                          (''ALG12'', [''ALG2'']),
                          (''C00001'', [''ALG2''])]\<rparr>,
      res_nodes = [(''1'', ''hsa:79087'', ''ALG12'', ''gene''),
                   (''2'', ''hsa:85365 hsa:200810'', ''ALG2'', ''gene''),
                   (''3'', ''cpd:C00001'', ''C00001'', ''compound'')],
      res_genes = [], res_reactions = []\<rparr>"




section \<open>Label normalization\<close>

lemma bind_simps [simp]: "bind (Inl e) f = Inl e" "bind (Inr x) f = f x"
  by (simp_all add: bind_def)

lemma bind_Inr_iff: "bind m f = Inr y \<longleftrightarrow> (\<exists>x. m = Inr x \<and> f x = Inr y)"
  by (cases m) simp_all

lemma getitem_Inr_iff: "getitem d k = Inr v \<longleftrightarrow> map_of d k = Some v"
  by (simp add: getitem_def split: option.splits)

lemma suffix_dots_iff: "drop (length t - 3) t = ''...'' \<longleftrightarrow> suffix ''...'' t"
proof
  assume h: "drop (length t - 3) t = ''...''"
  have "t = take (length t - 3) t @ drop (length t - 3) t" by simp
  with h have "t = take (length t - 3) t @ ''...''" by simp
  then show "suffix ''...'' t" unfolding suffix_def by blast
next
  assume "suffix ''...'' t"
  then obtain zs where "t = zs @ ''...''" unfolding suffix_def by blast
  then show "drop (length t - 3) t = ''...''" by simp
qed

lemma normalize_title_marked: "normalize_title (s @ ''...'') = s"
  by (simp add: normalize_title_def)

lemma normalize_title_plain: "\<not> suffix ''...'' t \<Longrightarrow> normalize_title t = t"
  by (simp add: normalize_title_def suffix_dots_iff)

text \<open>
  C4: a title that ends in the marker \<open>...\<close> loses exactly these three characters, any
  other title is returned as it is, and \<open>ALG2...\<close> becomes \<open>ALG2\<close>.
\<close>

theorem normalize_title_strips_marker:
  "(suffix ''...'' t \<longrightarrow>
      normalize_title t @ ''...'' = t \<and> length (normalize_title t) = length t - 3)
   \<and> (\<not> suffix ''...'' t \<longrightarrow> normalize_title t = t)
   \<and> normalize_title ''ALG2...'' = ''ALG2''"
proof (intro conjI impI)
  assume "suffix ''...'' t"
  then obtain s where t: "t = s @ ''...''" unfolding suffix_def by blast
  show "normalize_title t @ ''...'' = t" unfolding t normalize_title_marked ..
  show "length (normalize_title t) = length t - 3" unfolding t normalize_title_marked by simp
next
  assume "\<not> suffix ''...'' t"
  then show "normalize_title t = t" by (rule normalize_title_plain)
next
  show "normalize_title ''ALG2...'' = ''ALG2''" by (simp add: normalize_title_def)
qed

theorem normalize_title_strips_marker_witness:
  "suffix ''...'' ''ALG2...'' \<and> normalize_title ''ALG2...'' @ ''...'' = ''ALG2...''
   \<and> length (normalize_title ''ALG2...'') = 4
   \<and> \<not> suffix ''...'' ''ALG8'' \<and> normalize_title ''ALG8'' = ''ALG8''"
proof -
  have a: "suffix ''...'' ''ALG2...''" by (simp add: suffix_def)
  have b: "\<not> suffix ''...'' ''ALG8''" by (simp add: suffix_dots_iff [symmetric])
  from a normalize_title_strips_marker [of "''ALG2...''"]
  have "normalize_title ''ALG2...'' @ ''...'' = ''ALG2...''
        \<and> length (normalize_title ''ALG2...'') = 4"
    by simp
  moreover from b normalize_title_strips_marker [of "''ALG8''"]
  have "normalize_title ''ALG8'' = ''ALG8''" by blast
  ultimately show ?thesis using a b by blast
qed

text \<open>
  C7: normalization leaves a label that does not end in \<open>...\<close> unchanged, so normalizing
  an already normalized label changes nothing.
\<close>

theorem normalize_title_idempotent:
  "\<not> suffix ''...'' l \<Longrightarrow> normalize_title l = l"
  by (rule normalize_title_plain)

theorem normalize_title_idempotent_witness:
  "\<not> suffix ''...'' (normalize_title ''ALG2...'')
   \<and> normalize_title (normalize_title ''ALG2...'') = normalize_title ''ALG2...''"
proof -
  have b: "\<not> suffix ''...'' (normalize_title ''ALG2...'')"
    by (simp add: suffix_dots_iff [symmetric] normalize_title_def)
  from normalize_title_idempotent [OF b] b show ?thesis by blast
qed

section \<open>The flavor selector\<close>

lemma ko_doc_title:
  "pathway_title ET_1_2 ko_doc = Inr ''N-Glycan''"
  "pathway_title ET_1_3 ko_doc = Inr ''N-Glycan''"
  by code_simp+

lemma ko_doc_bogus_both:
  "KGML2Graph ET_1_2 ko_doc ''bogus'' = Inr ko_result"
  "KGML2Graph ET_1_3 ko_doc ''bogus'' = Inr ko_result"
  by code_simp+

lemma ko_doc_bogus: "KGML2Graph ver ko_doc ''bogus'' = Inr ko_result"
  by (cases ver) (simp_all only: ko_doc_bogus_both)

text \<open>
  C1, as stated, fails: the selector \<open>bogus\<close> is not one of the six recognized values, and
  the conversion of a document that has its title on the root and on the first child of
  the root returns a graph, whichever of the two elements line 53 reads.
\<close>

theorem unsupported_flavor_counterexample:
  "''bogus'' \<notin> set [''organism'', ''o'', ''ko'', ''k'', ''generic'', ''general'']
   \<and> map_of (attrib ko_doc) ''title'' = Some ''N-Glycan''
   \<and> map_of (attrib (hd (children ko_doc))) ''title'' = Some ''N-Glycan''
   \<and> KGML2Graph ET_1_2 ko_doc ''bogus'' = Inr ko_result
   \<and> KGML2Graph ET_1_3 ko_doc ''bogus'' = Inr ko_result
   \<and> graph_nodes (res_graph ko_result) = [''K03845'', ''K03846'']
   \<and> edges (res_graph ko_result) = [(''K03845'', ''K03846'')]"
  by code_simp

text \<open>
  C1, amended: every selector other than \<open>organism\<close> and \<open>o\<close>, recognized or not, selects
  the generic mode: the conversion does what it does for \<open>generic\<close>, with the accepted
  types ortholog, map and compound, and raises no error of its own.
\<close>

theorem unrecognized_filetype_is_generic:
  "filetype \<notin> {''organism'', ''o''} \<Longrightarrow>
     KGML2Graph ver xmltree filetype = KGML2Graph ver xmltree ''generic''
     \<and> entriestype filetype = [''ortholog'', ''map'', ''compound'']"
  by (simp add: KGML2Graph_def entriestype_def)

theorem unrecognized_filetype_is_generic_witness:
  "''bogus'' \<notin> {''organism'', ''o''}
   \<and> KGML2Graph ET_1_2 ko_doc ''bogus'' = KGML2Graph ET_1_2 ko_doc ''generic''
   \<and> KGML2Graph ET_1_3 ko_doc ''bogus'' = KGML2Graph ET_1_3 ko_doc ''generic''
   \<and> KGML2Graph ET_1_3 ko_doc ''generic'' = Inr ko_result
   \<and> entriestype ''bogus'' = [''ortholog'', ''map'', ''compound'']"
proof -
  have h: "''bogus'' \<notin> {''organism'', ''o''}" by simp
  note A = unrecognized_filetype_is_generic [OF h, of ET_1_2 ko_doc]
  note B = unrecognized_filetype_is_generic [OF h, of ET_1_3 ko_doc]
  have g: "KGML2Graph ET_1_3 ko_doc ''generic'' = Inr ko_result"
    unfolding conjunct1 [OF B, symmetric] by (rule ko_doc_bogus)
  show ?thesis by (intro conjI h conjunct1 [OF A] conjunct1 [OF B] g conjunct2 [OF B])
qed

section \<open>The reserved outputs\<close>

text \<open>
  C9: whenever the conversion returns, the gene list and the reaction dictionary it
  returns are empty.
\<close>

theorem reserved_outputs_empty:
  "KGML2Graph ver xmltree filetype = Inr r \<Longrightarrow> res_genes r = [] \<and> res_reactions r = []"
  by (auto simp: KGML2Graph_def Let_def bind_Inr_iff)

theorem reserved_outputs_empty_witness:
  "KGML2Graph ET_1_2 ko_doc ''bogus'' = Inr ko_result
   \<and> KGML2Graph ET_1_3 ko_doc ''bogus'' = Inr ko_result
   \<and> res_genes ko_result = [] \<and> res_reactions ko_result = []"
proof -
  note T = reserved_outputs_empty [OF ko_doc_bogus_both(2)]
  show ?thesis
    by (intro conjI ko_doc_bogus_both(1) ko_doc_bogus_both(2) conjunct1 [OF T] conjunct2 [OF T])
qed

section \<open>The entry pass\<close>

lemma entry_step_skip:
  "entry_step ets el st = Inr st' \<Longrightarrow> \<not> accepted ets el \<Longrightarrow> st' = st"
  by (auto simp: entry_step_def accepted_def bind_Inr_iff getitem_Inr_iff split: if_splits)

lemma entry_step_accept:
  assumes "entry_step ets el st = Inr st'" "accepted ets el"
  shows "\<exists>i name l ty. entry_descriptor el = Some (i, name, l, ty) \<and> ty \<in> set ets
           \<and> snd st' = AList.update i (name, l, ty) (snd st)
           \<and> fst st' = (if ty = ''gene'' then add_node l (fst st) else fst st)"
proof -
  from assms(2) obtain ty where ty: "map_of (attrib el) ''type'' = Some ty" "ty \<in> set ets"
    by (auto simp: accepted_def split: option.splits)
  from assms(1) ty obtain i name g t where
    a: "map_of (attrib el) ''id'' = Some i" "map_of (attrib el) ''name'' = Some name"
       "find_child ''graphics'' el = Some g" "map_of (attrib g) ''name'' = Some t"
    and st': "st' = (if ty = ''gene'' then add_node (normalize_title t) (fst st) else fst st,
                    AList.update i (name, normalize_title t, ty) (snd st))"
    by (auto simp: entry_step_def bind_Inr_iff getitem_Inr_iff Let_def split: option.splits)
  from ty a have "entry_descriptor el = Some (i, name, normalize_title t, ty)"
    by (simp add: entry_descriptor_def)
  with ty(2) st' show ?thesis by simp
qed

lemma entry_descriptor_id:
  "entry_descriptor el = Some (i, d) \<Longrightarrow> map_of (attrib el) ''id'' = Some i"
  by (auto simp: entry_descriptor_def split: option.splits)

lemma entry_descriptor_type:
  "entry_descriptor el = Some (i, name, l, ty) \<Longrightarrow> map_of (attrib el) ''type'' = Some ty"
  by (auto simp: entry_descriptor_def split: option.splits)

lemma entries_loop_append:
  "entries_loop ets (xs @ ys) st = bind (entries_loop ets xs st) (entries_loop ets ys)"
proof (induction xs arbitrary: st)
  case Nil
  then show ?case by simp
next
  case (Cons x xs)
  then show ?case by (cases "entry_step ets x st") simp_all
qed

text \<open>Lookups of ids no later accepted entry carries survive the rest of the loop.\<close>
lemma entries_loop_keeps:
  "entries_loop ets els st = Inr st' \<Longrightarrow>
   \<forall>el \<in> set els. accepted ets el \<longrightarrow> map_of (attrib el) ''id'' \<noteq> Some i \<Longrightarrow>
   map_of (snd st') i = map_of (snd st) i"
proof (induction els arbitrary: st)
  case Nil
  then show ?case by simp
next
  case (Cons el els)
  from Cons.prems(1) obtain st1 where s1: "entry_step ets el st = Inr st1"
    and s2: "entries_loop ets els st1 = Inr st'"
    by (auto simp: bind_Inr_iff)
  have "map_of (snd st') i = map_of (snd st1) i"
    using Cons.IH [OF s2] Cons.prems(2) by simp
  moreover have "map_of (snd st1) i = map_of (snd st) i"
  proof (cases "accepted ets el")
    case True
    from entry_step_accept [OF s1 True] obtain j name l ty where
      d: "entry_descriptor el = Some (j, name, l, ty)"
      and u: "snd st1 = AList.update j (name, l, ty) (snd st)" by blast
    from Cons.prems(2) True entry_descriptor_id [OF d] have "j \<noteq> i" by auto
    with u show ?thesis by (simp add: update_conv')
  next
    case False
    with entry_step_skip [OF s1] show ?thesis by simp
  qed
  ultimately show ?case by simp
qed

text \<open>Every table entry is there from the start or comes from an accepted entry.\<close>
lemma entries_loop_origin:
  "entries_loop ets els st = Inr st' \<Longrightarrow> map_of (snd st') i = Some d \<Longrightarrow>
   map_of (snd st) i = Some d
   \<or> (\<exists>el \<in> set els. accepted ets el \<and> entry_descriptor el = Some (i, d))"
proof (induction els arbitrary: st)
  case Nil
  then show ?case by simp
next
  case (Cons el els)
  from Cons.prems(1) obtain st1 where s1: "entry_step ets el st = Inr st1"
    and s2: "entries_loop ets els st1 = Inr st'"
    by (auto simp: bind_Inr_iff)
  from Cons.IH [OF s2 Cons.prems(2)]
  consider "map_of (snd st1) i = Some d"
    | "\<exists>el \<in> set els. accepted ets el \<and> entry_descriptor el = Some (i, d)" by blast
  then show ?case
  proof cases
    case 1
    show ?thesis
    proof (cases "accepted ets el")
      case True
      from entry_step_accept [OF s1 True] obtain j name l ty where
        d: "entry_descriptor el = Some (j, name, l, ty)"
        and u: "snd st1 = AList.update j (name, l, ty) (snd st)" by blast
      show ?thesis
      proof (cases "j = i")
        case True
        with 1 u have "d = (name, l, ty)" by (simp add: update_conv')
        with d True \<open>accepted ets el\<close> show ?thesis by simp
      next
        case False
        with 1 u show ?thesis by (simp add: update_conv')
      qed
    next
      case False
      with entry_step_skip [OF s1] 1 show ?thesis by simp
    qed
  next
    case 2
    then show ?thesis by auto
  qed
qed

text \<open>The loop succeeds only when every accepted entry has all its attributes, and
  then the id of each is a key of the table.\<close>
lemma entries_loop_dom_mono:
  "entries_loop ets els st = Inr st' \<Longrightarrow> map_of (snd st) i \<noteq> None \<Longrightarrow> map_of (snd st') i \<noteq> None"
proof (induction els arbitrary: st)
  case Nil
  then show ?case by simp
next
  case (Cons el els)
  from Cons.prems(1) obtain st1 where s1: "entry_step ets el st = Inr st1"
    and s2: "entries_loop ets els st1 = Inr st'"
    by (auto simp: bind_Inr_iff)
  have "map_of (snd st1) i \<noteq> None"
  proof (cases "accepted ets el")
    case True
    from entry_step_accept [OF s1 True] Cons.prems(2) show ?thesis
      by (auto simp: update_conv')
  next
    case False
    with entry_step_skip [OF s1] Cons.prems(2) show ?thesis by simp
  qed
  from Cons.IH [OF s2 this] show ?case .
qed

lemma entries_loop_registers:
  "entries_loop ets els st = Inr st' \<Longrightarrow> el \<in> set els \<Longrightarrow> accepted ets el \<Longrightarrow>
   \<exists>i d. entry_descriptor el = Some (i, d) \<and> map_of (snd st') i \<noteq> None"
proof (induction els arbitrary: st)
  case Nil
  then show ?case by simp
next
  case (Cons x els)
  from Cons.prems(1) obtain st1 where s1: "entry_step ets x st = Inr st1"
    and s2: "entries_loop ets els st1 = Inr st'"
    by (auto simp: bind_Inr_iff)
  show ?case
  proof (cases "el = x")
    case True
    from entry_step_accept [OF s1] True Cons.prems(3) obtain j name l ty where
      d: "entry_descriptor el = Some (j, name, l, ty)"
      and u: "snd st1 = AList.update j (name, l, ty) (snd st)" by blast
    from u have "map_of (snd st1) j \<noteq> None" by (simp add: update_conv')
    from entries_loop_dom_mono [OF s2 this] d show ?thesis by blast
  next
    case False
    with Cons.prems(2) have "el \<in> set els" by simp
    from Cons.IH [OF s2 this Cons.prems(3)] show ?thesis .
  qed
qed


lemma entry_step_ok_iff: "(\<exists>st'. entry_step ets el st = Inr st') \<longleftrightarrow> entry_ok ets el"
proof
  assume "\<exists>st'. entry_step ets el st = Inr st'"
  then obtain st' where s: "entry_step ets el st = Inr st'" ..
  then have "map_of (attrib el) ''type'' \<noteq> None \<and> map_of (attrib el) ''id'' \<noteq> None"
    by (auto simp: entry_step_def bind_Inr_iff getitem_Inr_iff)
  moreover have "accepted ets el \<longrightarrow> entry_descriptor el \<noteq> None"
    using entry_step_accept [OF s] by auto
  ultimately show "entry_ok ets el" by (simp add: entry_ok_def)
next
  assume ok: "entry_ok ets el"
  then obtain ty i where a: "map_of (attrib el) ''type'' = Some ty" "map_of (attrib el) ''id'' = Some i"
    by (auto simp: entry_ok_def)
  show "\<exists>st'. entry_step ets el st = Inr st'"
  proof (cases "ty \<in> set ets")
    case True
    with ok a have "entry_descriptor el \<noteq> None" by (simp add: entry_ok_def accepted_def)
    with a obtain name g t where "map_of (attrib el) ''name'' = Some name"
      "find_child ''graphics'' el = Some g" "map_of (attrib g) ''name'' = Some t"
      by (auto simp: entry_descriptor_def split: option.splits)
    with a True show ?thesis by (simp add: entry_step_def getitem_def Let_def)
  next
    case False
    with a show ?thesis by (simp add: entry_step_def getitem_def)
  qed
qed

lemma entries_loop_ok_iff:
  "(\<exists>st'. entries_loop ets els st = Inr st') \<longleftrightarrow> list_all (entry_ok ets) els"
proof (induction els arbitrary: st)
  case Nil
  then show ?case by simp
next
  case (Cons el els)
  show ?case
  proof
    assume "\<exists>st'. entries_loop ets (el # els) st = Inr st'"
    then obtain st' st1 where s1: "entry_step ets el st = Inr st1"
      and s2: "entries_loop ets els st1 = Inr st'"
      by (auto simp: bind_Inr_iff)
    from s1 have "entry_ok ets el" using entry_step_ok_iff by blast
    moreover from s2 have "list_all (entry_ok ets) els" using Cons.IH by blast
    ultimately show "list_all (entry_ok ets) (el # els)" by simp
  next
    assume a: "list_all (entry_ok ets) (el # els)"
    then obtain st1 where s1: "entry_step ets el st = Inr st1"
      using entry_step_ok_iff [of ets el st] by auto
    from a obtain st' where "entries_loop ets els st1 = Inr st'"
      using Cons.IH [of st1] by auto
    with s1 show "\<exists>st'. entries_loop ets (el # els) st = Inr st'" by simp
  qed
qed

lemma entries_loop_dom:
  assumes "entries_loop ets els (G0, []) = Inr st'"
  shows "map_of (snd st') i \<noteq> None
         \<longleftrightarrow> list_ex (\<lambda>el. accepted ets el \<and> map_of (attrib el) ''id'' = Some i) els"
proof
  assume "map_of (snd st') i \<noteq> None"
  then obtain d where "map_of (snd st') i = Some d" by blast
  from entries_loop_origin [OF assms this]
  obtain el where "el \<in> set els" "accepted ets el" "entry_descriptor el = Some (i, d)"
    by auto
  with entry_descriptor_id show "list_ex (\<lambda>el. accepted ets el \<and> map_of (attrib el) ''id'' = Some i) els"
    unfolding list_ex_iff by blast
next
  assume "list_ex (\<lambda>el. accepted ets el \<and> map_of (attrib el) ''id'' = Some i) els"
  then obtain el where el: "el \<in> set els" "accepted ets el" "map_of (attrib el) ''id'' = Some i"
    unfolding list_ex_iff by blast
  from entries_loop_registers [OF assms el(1,2)] obtain j d where
    "entry_descriptor el = Some (j, d)" "map_of (snd st') j \<noteq> None" by blast
  with entry_descriptor_id [of el j d] el(3) show "map_of (snd st') i \<noteq> None" by simp
qed

lemma relation_step_Inr_iff:
  "relation_step nodes rel G = Inr G'
   \<longleftrightarrow> (\<exists>a b. relation_labels nodes rel = Some (a, b) \<and> G' = add_edge a b G)"
  by (auto simp: relation_step_def relation_labels_def bind_Inr_iff getitem_Inr_iff
      split: option.splits)


lemma relations_loop_ok_iff:
  "(\<exists>G'. relations_loop nodes rels G = Inr G')
   \<longleftrightarrow> list_all (\<lambda>rel. relation_labels nodes rel \<noteq> None) rels"
proof (induction rels arbitrary: G)
  case Nil
  then show ?case by simp
next
  case (Cons rel rels)
  show ?case
  proof
    assume "\<exists>G'. relations_loop nodes (rel # rels) G = Inr G'"
    then obtain G' G1 where s1: "relation_step nodes rel G = Inr G1"
      and s2: "relations_loop nodes rels G1 = Inr G'"
      by (auto simp: bind_Inr_iff)
    from s1 have "relation_labels nodes rel \<noteq> None" by (auto simp: relation_step_Inr_iff)
    moreover from s2 have "list_all (\<lambda>rel. relation_labels nodes rel \<noteq> None) rels"
      using Cons.IH by blast
    ultimately show "list_all (\<lambda>rel. relation_labels nodes rel \<noteq> None) (rel # rels)" by simp
  next
    assume a: "list_all (\<lambda>rel. relation_labels nodes rel \<noteq> None) (rel # rels)"
    then obtain l1 l2 where "relation_labels nodes rel = Some (l1, l2)" by auto
    then have s1: "relation_step nodes rel G = Inr (add_edge l1 l2 G)"
      by (simp add: relation_step_Inr_iff)
    from a obtain G' where "relations_loop nodes rels (add_edge l1 l2 G) = Inr G'"
      using Cons.IH [of "add_edge l1 l2 G"] by auto
    with s1 show "\<exists>G'. relations_loop nodes (rel # rels) G = Inr G'" by simp
  qed
qed


lemma relation_labels_ok:
  assumes "\<And>i. map_of nodes i \<noteq> None \<longleftrightarrow> registered ets xmltree i"
  shows "relation_labels nodes rel \<noteq> None \<longleftrightarrow> relation_ok ets xmltree rel"
  using assms [symmetric]
  by (auto simp: relation_labels_def relation_ok_def split: option.splits)

text \<open>The unfolding of the conversion into its three stages.\<close>
lemma KGML2Graph_Inr_iff:
  "KGML2Graph ver xmltree filetype = Inr r \<longleftrightarrow>
     (\<exists>t st G. pathway_title ver xmltree = Inr t
        \<and> entries_loop (entriestype filetype) (getiterator ''entry'' xmltree)
             (\<lparr>title = t, adj = []\<rparr>, []) = Inr st
        \<and> relations_loop (snd st) (getiterator ''relation'' xmltree) (fst st) = Inr G
        \<and> r = \<lparr>res_tree = xmltree, res_graph = G, res_nodes = snd st,
                res_genes = [], res_reactions = []\<rparr>)"
  by (auto simp: KGML2Graph_def Let_def bind_Inr_iff)

lemma KGML2Graph_succeeds_iff:
  "(\<exists>r. KGML2Graph ver xmltree filetype = Inr r) \<longleftrightarrow> well_formed ver (entriestype filetype) xmltree"
proof
  assume "\<exists>r. KGML2Graph ver xmltree filetype = Inr r"
  then obtain t st G where t: "pathway_title ver xmltree = Inr t"
    and e: "entries_loop (entriestype filetype) (getiterator ''entry'' xmltree)
             (\<lparr>title = t, adj = []\<rparr>, []) = Inr st"
    and r: "relations_loop (snd st) (getiterator ''relation'' xmltree) (fst st) = Inr G"
    unfolding KGML2Graph_Inr_iff by blast
  from e have 1: "list_all (entry_ok (entriestype filetype)) (getiterator ''entry'' xmltree)"
    using entries_loop_ok_iff by blast
  have d: "\<And>i. map_of (snd st) i \<noteq> None \<longleftrightarrow> registered (entriestype filetype) xmltree i"
    unfolding registered_def by (rule entries_loop_dom [OF e])
  from r have "list_all (\<lambda>rel. relation_labels (snd st) rel \<noteq> None) (getiterator ''relation'' xmltree)"
    using relations_loop_ok_iff by blast
  then have "list_all (relation_ok (entriestype filetype) xmltree) (getiterator ''relation'' xmltree)"
    by (simp only: relation_labels_ok [OF d])
  with t 1 show "well_formed ver (entriestype filetype) xmltree" by (simp add: well_formed_def)
next
  assume w: "well_formed ver (entriestype filetype) xmltree"
  then obtain t where t: "pathway_title ver xmltree = Inr t"
    by (auto simp: well_formed_def split: sum.splits)
  from w obtain st where e: "entries_loop (entriestype filetype) (getiterator ''entry'' xmltree)
             (\<lparr>title = t, adj = []\<rparr>, []) = Inr st"
    using entries_loop_ok_iff [of "entriestype filetype" "getiterator ''entry'' xmltree"
        "(\<lparr>title = t, adj = []\<rparr>, [])"]
    by (auto simp: well_formed_def)
  have d: "\<And>i. map_of (snd st) i \<noteq> None \<longleftrightarrow> registered (entriestype filetype) xmltree i"
    unfolding registered_def by (rule entries_loop_dom [OF e])
  from w have "list_all (\<lambda>rel. relation_labels (snd st) rel \<noteq> None) (getiterator ''relation'' xmltree)"
    by (simp only: well_formed_def relation_labels_ok [OF d])
  then obtain G where "relations_loop (snd st) (getiterator ''relation'' xmltree) (fst st) = Inr G"
    using relations_loop_ok_iff by blast
  with t e show "\<exists>r. KGML2Graph ver xmltree filetype = Inr r"
    unfolding KGML2Graph_Inr_iff by blast
qed


lemma sample_doc_organism_both:
  "KGML2Graph ET_1_2 sample_doc ''organism'' = Inr sample_result"
  "KGML2Graph ET_1_3 sample_doc ''organism'' = Inr sample_result"
  by code_simp+

lemma sample_doc_organism: "KGML2Graph ver sample_doc ''organism'' = Inr sample_result"
  by (cases ver) (simp_all only: sample_doc_organism_both)

lemma sample_entries:
  "getiterator ''entry'' sample_doc =
     [entry_el ''1'' ''hsa:79053'' ''gene'' ''ALG8'',
      entry_el ''2'' ''hsa:85365 hsa:200810'' ''gene'' ''ALG2...'',
      entry_el ''3'' ''cpd:C00001'' ''compound'' ''C00001'',
      entry_el ''4'' ''ko:K03845'' ''ortholog'' ''K03845''] @
     entry_el ''1'' ''hsa:79087'' ''gene'' ''ALG12'' # []"
  by code_simp

lemma sample_doc_well_formed:
  "well_formed ET_1_2 (entriestype ''organism'') sample_doc"
  "well_formed ET_1_3 (entriestype ''organism'') sample_doc"
  by code_simp+


section \<open>Accepted entry kinds\<close>

text \<open>
  C5: the accepted types are gene, compound and map for the selectors \<open>organism\<close> and
  \<open>o\<close>, and ortholog, map and compound for \<open>ko\<close>, \<open>k\<close>, \<open>generic\<close> and \<open>general\<close>.
  Whenever the conversion returns, every entry of the descriptor table has an accepted
  type and is the table entry of an accepted \<^verbatim>\<open>entry\<close> element of the document, and
  every accepted element has its id in the table.
\<close>

theorem accepted_kinds:
  "(filetype \<in> {''organism'', ''o''} \<longrightarrow>
      set (entriestype filetype) = {''gene'', ''compound'', ''map''})
   \<and> (filetype \<in> {''ko'', ''k'', ''generic'', ''general''} \<longrightarrow>
      set (entriestype filetype) = {''ortholog'', ''map'', ''compound''})
   \<and> (KGML2Graph ver xmltree filetype = Inr r \<and> map_of (res_nodes r) i = Some (name, l, ty) \<longrightarrow>
        ty \<in> set (entriestype filetype)
        \<and> (\<exists>el \<in> set (getiterator ''entry'' xmltree).
              map_of (attrib el) ''type'' = Some ty
              \<and> entry_descriptor el = Some (i, name, l, ty)))
   \<and> (KGML2Graph ver xmltree filetype = Inr r \<and> el \<in> set (getiterator ''entry'' xmltree)
        \<and> accepted (entriestype filetype) el \<longrightarrow>
        (\<exists>i d. entry_descriptor el = Some (i, d) \<and> map_of (res_nodes r) i \<noteq> None))"
proof (intro conjI impI)
  assume "filetype \<in> {''organism'', ''o''}"
  then show "set (entriestype filetype) = {''gene'', ''compound'', ''map''}"
    by (auto simp: entriestype_def)
next
  assume "filetype \<in> {''ko'', ''k'', ''generic'', ''general''}"
  then show "set (entriestype filetype) = {''ortholog'', ''map'', ''compound''}"
    by (auto simp: entriestype_def)
next
  assume a: "KGML2Graph ver xmltree filetype = Inr r \<and> map_of (res_nodes r) i = Some (name, l, ty)"
  then obtain t st where
    e: "entries_loop (entriestype filetype) (getiterator ''entry'' xmltree)
          (\<lparr>title = t, adj = []\<rparr>, []) = Inr st"
    and n: "res_nodes r = snd st"
    unfolding KGML2Graph_Inr_iff by auto
  from a n have m: "map_of (snd st) i = Some (name, l, ty)" by simp
  from entries_loop_origin [OF e m] obtain el where
    el: "el \<in> set (getiterator ''entry'' xmltree)" "accepted (entriestype filetype) el"
      "entry_descriptor el = Some (i, name, l, ty)"
    by auto
  from el(3) have ty: "map_of (attrib el) ''type'' = Some ty" by (rule entry_descriptor_type)
  with el(2) show "ty \<in> set (entriestype filetype)" by (simp add: accepted_def)
  from el ty show "\<exists>el \<in> set (getiterator ''entry'' xmltree).
      map_of (attrib el) ''type'' = Some ty \<and> entry_descriptor el = Some (i, name, l, ty)"
    by blast
next
  assume a: "KGML2Graph ver xmltree filetype = Inr r \<and> el \<in> set (getiterator ''entry'' xmltree)
        \<and> accepted (entriestype filetype) el"
  then obtain t st where
    e: "entries_loop (entriestype filetype) (getiterator ''entry'' xmltree)
          (\<lparr>title = t, adj = []\<rparr>, []) = Inr st"
    and n: "res_nodes r = snd st"
    unfolding KGML2Graph_Inr_iff by auto
  from a have el: "el \<in> set (getiterator ''entry'' xmltree)" "accepted (entriestype filetype) el"
    by simp_all
  from entries_loop_registers [OF e el] n
  show "\<exists>i d. entry_descriptor el = Some (i, d) \<and> map_of (res_nodes r) i \<noteq> None" by simp
qed

theorem accepted_kinds_witness:
  "''organism'' \<in> {''organism'', ''o''}
   \<and> set (entriestype ''organism'') = {''gene'', ''compound'', ''map''}
   \<and> KGML2Graph ET_1_2 sample_doc ''organism'' = Inr sample_result
   \<and> KGML2Graph ET_1_3 sample_doc ''organism'' = Inr sample_result
   \<and> map_of (res_nodes sample_result) ''3'' = Some (''cpd:C00001'', ''C00001'', ''compound'')
   \<and> ''compound'' \<in> set (entriestype ''organism'')
   \<and> map_of (res_nodes sample_result) ''4'' = None"
proof -
  note T = accepted_kinds [of "''organism''" ET_1_3 sample_doc sample_result "''3''"
      "''cpd:C00001''" "''C00001''" "''compound''"]
  have o: "''organism'' \<in> {''organism'', ''o''}" by simp
  have m: "map_of (res_nodes sample_result) ''3'' = Some (''cpd:C00001'', ''C00001'', ''compound'')"
    by (simp add: sample_result_def)
  have 1: "set (entriestype ''organism'') = {''gene'', ''compound'', ''map''}"
    by (rule mp [OF conjunct1 [OF T] o])
  have 2: "''compound'' \<in> set (entriestype ''organism'')"
    by (rule conjunct1 [OF mp [OF conjunct1 [OF conjunct2 [OF conjunct2 [OF T]]]
          conjI [OF sample_doc_organism m]]])
  have 3: "map_of (res_nodes sample_result) ''4'' = None"
    by (simp add: sample_result_def)
  show ?thesis by (intro conjI o 1 sample_doc_organism_both(1) sample_doc_organism_both(2) m 2 3)
qed

section \<open>The default selector\<close>

text \<open>
  C10: a call that leaves the selector out is the conversion with the selector
  \<open>organism\<close>, and so the call that passes \<open>organism\<close>; the accepted types of that mode are
  gene, compound and map, and every entry of the descriptor table that a call without
  the selector returns has one of these types.
\<close>

theorem default_filetype_is_organism:
  "KGML2Graph_call ver xmltree None = KGML2Graph ver xmltree ''organism''
   \<and> KGML2Graph_call ver xmltree None = KGML2Graph_call ver xmltree (Some ''organism'')
   \<and> set (entriestype ''organism'') = {''gene'', ''compound'', ''map''}
   \<and> (KGML2Graph_call ver xmltree None = Inr r
        \<and> map_of (res_nodes r) i = Some (name, l, ty)
      \<longrightarrow> ty \<in> {''gene'', ''compound'', ''map''})"
proof (intro conjI impI)
  show c: "KGML2Graph_call ver xmltree None = KGML2Graph ver xmltree ''organism''"
    by (simp add: KGML2Graph_call_def)
  show "KGML2Graph_call ver xmltree None = KGML2Graph_call ver xmltree (Some ''organism'')"
    by (simp add: KGML2Graph_call_def)
  show s: "set (entriestype ''organism'') = {''gene'', ''compound'', ''map''}"
    by (simp add: entriestype_def)
  assume a: "KGML2Graph_call ver xmltree None = Inr r
        \<and> map_of (res_nodes r) i = Some (name, l, ty)"
  then have "KGML2Graph ver xmltree ''organism'' = Inr r" unfolding c by simp
  then obtain t st where
    e: "entries_loop (entriestype ''organism'') (getiterator ''entry'' xmltree)
          (\<lparr>title = t, adj = []\<rparr>, []) = Inr st"
    and n: "res_nodes r = snd st"
    unfolding KGML2Graph_Inr_iff by auto
  from a n have m: "map_of (snd st) i = Some (name, l, ty)" by simp
  from entries_loop_origin [OF e m] obtain el where
    el: "accepted (entriestype ''organism'') el" "entry_descriptor el = Some (i, name, l, ty)"
    by auto
  from el(2) have "map_of (attrib el) ''type'' = Some ty" by (rule entry_descriptor_type)
  with el(1) have "ty \<in> set (entriestype ''organism'')" by (simp add: accepted_def)
  then show "ty \<in> {''gene'', ''compound'', ''map''}" unfolding s .
qed

theorem default_filetype_is_organism_witness:
  "KGML2Graph_call ET_1_2 sample_doc None = Inr sample_result
   \<and> KGML2Graph_call ET_1_3 sample_doc None = Inr sample_result
   \<and> KGML2Graph_call ET_1_3 sample_doc None = KGML2Graph_call ET_1_3 sample_doc (Some ''organism'')
   \<and> map_of (res_nodes sample_result) ''3'' = Some (''cpd:C00001'', ''C00001'', ''compound'')
   \<and> ''compound'' \<in> {''gene'', ''compound'', ''map''}
   \<and> map_of (res_nodes sample_result) ''4'' = None"
proof -
  note A = default_filetype_is_organism [of ET_1_2 sample_doc]
  note T = default_filetype_is_organism [of ET_1_3 sample_doc sample_result "''3''"
      "''cpd:C00001''" "''C00001''" "''compound''"]
  have 1: "KGML2Graph_call ET_1_2 sample_doc None = Inr sample_result"
    unfolding conjunct1 [OF A] by (rule sample_doc_organism)
  have 2: "KGML2Graph_call ET_1_3 sample_doc None = Inr sample_result"
    unfolding conjunct1 [OF T] by (rule sample_doc_organism)
  have m: "map_of (res_nodes sample_result) ''3'' = Some (''cpd:C00001'', ''C00001'', ''compound'')"
    by (simp add: sample_result_def)
  have 3: "''compound'' \<in> {''gene'', ''compound'', ''map''}"
    by (rule mp [OF conjunct2 [OF conjunct2 [OF conjunct2 [OF T]]] conjI [OF 2 m]])
  have 4: "map_of (res_nodes sample_result) ''4'' = None"
    by (simp add: sample_result_def)
  show ?thesis by (intro conjI 1 2 conjunct1 [OF conjunct2 [OF T]] m 3 4)
qed

section \<open>Repeated entry ids\<close>

text \<open>
  C8: a well-formed document (one whose title line 53 finds, whose entries have the
  attributes that are read and whose relations name registered ids) converts without an
  error whether or not an id is used twice, and the table maps an id to the data of the
  last accepted entry that carries it.
\<close>

theorem duplicate_id_last_wins:
  "(well_formed ver (entriestype filetype) xmltree \<longrightarrow> (\<exists>r. KGML2Graph ver xmltree filetype = Inr r))
   \<and> (KGML2Graph ver xmltree filetype = Inr r
        \<and> getiterator ''entry'' xmltree = pre @ el # post
        \<and> accepted (entriestype filetype) el
        \<and> map_of (attrib el) ''id'' = Some i
        \<and> (\<forall>el' \<in> set post. accepted (entriestype filetype) el' \<longrightarrow>
              map_of (attrib el') ''id'' \<noteq> Some i)
      \<longrightarrow> (\<exists>d. entry_descriptor el = Some (i, d) \<and> map_of (res_nodes r) i = Some d))"
proof (intro conjI impI)
  assume "well_formed ver (entriestype filetype) xmltree"
  then show "\<exists>r. KGML2Graph ver xmltree filetype = Inr r" by (simp add: KGML2Graph_succeeds_iff)
next
  assume a: "KGML2Graph ver xmltree filetype = Inr r
        \<and> getiterator ''entry'' xmltree = pre @ el # post
        \<and> accepted (entriestype filetype) el
        \<and> map_of (attrib el) ''id'' = Some i
        \<and> (\<forall>el' \<in> set post. accepted (entriestype filetype) el' \<longrightarrow>
              map_of (attrib el') ''id'' \<noteq> Some i)"
  then obtain t st where
    e: "entries_loop (entriestype filetype) (pre @ el # post)
          (\<lparr>title = t, adj = []\<rparr>, []) = Inr st"
    and n: "res_nodes r = snd st"
    unfolding KGML2Graph_Inr_iff by auto
  from e obtain st1 st2 where
    s1: "entry_step (entriestype filetype) el st1 = Inr st2"
    and s2: "entries_loop (entriestype filetype) post st2 = Inr st"
    by (auto simp: entries_loop_append bind_Inr_iff)
  from entry_step_accept [OF s1] a obtain j name l ty where
    d: "entry_descriptor el = Some (j, name, l, ty)"
    and u: "snd st2 = AList.update j (name, l, ty) (snd st1)" by blast
  from entry_descriptor_id [OF d] a have j: "j = i" by simp
  from u j have "map_of (snd st2) i = Some (name, l, ty)" by (simp add: update_conv')
  moreover from entries_loop_keeps [OF s2] a have "map_of (snd st) i = map_of (snd st2) i"
    by blast
  ultimately show "\<exists>d. entry_descriptor el = Some (i, d) \<and> map_of (res_nodes r) i = Some d"
    using d j n by simp
qed

theorem duplicate_id_last_wins_witness:
  "well_formed ET_1_2 (entriestype ''organism'') sample_doc
   \<and> well_formed ET_1_3 (entriestype ''organism'') sample_doc
   \<and> (\<exists>r. KGML2Graph ET_1_2 sample_doc ''organism'' = Inr r)
   \<and> (\<exists>r. KGML2Graph ET_1_3 sample_doc ''organism'' = Inr r)
   \<and> KGML2Graph ET_1_2 sample_doc ''organism'' = Inr sample_result
   \<and> KGML2Graph ET_1_3 sample_doc ''organism'' = Inr sample_result
   \<and> entry_descriptor (entry_el ''1'' ''hsa:79053'' ''gene'' ''ALG8'')
       = Some (''1'', ''hsa:79053'', ''ALG8'', ''gene'')
   \<and> entry_descriptor (entry_el ''1'' ''hsa:79087'' ''gene'' ''ALG12'')
       = Some (''1'', ''hsa:79087'', ''ALG12'', ''gene'')
   \<and> map_of (res_nodes sample_result) ''1'' = Some (''hsa:79087'', ''ALG12'', ''gene'')"
proof -
  let ?el = "entry_el ''1'' ''hsa:79087'' ''gene'' ''ALG12''"
  note A = duplicate_id_last_wins [of ET_1_2 "''organism''" sample_doc]
  note T = duplicate_id_last_wins [of ET_1_3 "''organism''" sample_doc sample_result _ ?el "[]" "''1''"]
  have r1: "\<exists>r. KGML2Graph ET_1_2 sample_doc ''organism'' = Inr r"
    by (rule mp [OF conjunct1 [OF A] sample_doc_well_formed(1)])
  have r2: "\<exists>r. KGML2Graph ET_1_3 sample_doc ''organism'' = Inr r"
    by (rule mp [OF conjunct1 [OF T] sample_doc_well_formed(2)])
  have acc: "accepted (entriestype ''organism'') ?el"
    by (simp add: accepted_def entriestype_def entry_el_def)
  have i: "map_of (attrib ?el) ''id'' = Some ''1''"
    by (simp add: entry_el_def)
  have p: "\<forall>el' \<in> set []. accepted (entriestype ''organism'') el' \<longrightarrow>
      map_of (attrib el') ''id'' \<noteq> Some ''1''"
    by simp
  have d1: "entry_descriptor (entry_el ''1'' ''hsa:79053'' ''gene'' ''ALG8'')
       = Some (''1'', ''hsa:79053'', ''ALG8'', ''gene'')"
    by (simp add: entry_descriptor_def entry_el_def find_child_def normalize_title_def)
  have d2: "entry_descriptor ?el = Some (''1'', ''hsa:79087'', ''ALG12'', ''gene'')"
    by (simp add: entry_descriptor_def entry_el_def find_child_def normalize_title_def)
  have "\<exists>d. entry_descriptor ?el = Some (''1'', d) \<and> map_of (res_nodes sample_result) ''1'' = Some d"
    by (rule mp [OF conjunct2 [OF T]
          conjI [OF sample_doc_organism conjI [OF sample_entries conjI [OF acc conjI [OF i p]]]]])
  then obtain d where "entry_descriptor ?el = Some (''1'', d)"
    and m: "map_of (res_nodes sample_result) ''1'' = Some d" by (elim exE conjE)
  with d2 have "d = (''hsa:79087'', ''ALG12'', ''gene'')" by simp
  with m have 5: "map_of (res_nodes sample_result) ''1'' = Some (''hsa:79087'', ''ALG12'', ''gene'')"
    by simp
  show ?thesis
    by (intro conjI sample_doc_well_formed(1) sample_doc_well_formed(2) r1 r2
        sample_doc_organism_both(1) sample_doc_organism_both(2) d1 d2 5)
qed


section \<open>Unresolved relation endpoints\<close>




section \<open>The graph operations\<close>

lemma nbrs_of_Nil [simp]: "nbrs_of [] n = {}"
  by (simp add: nbrs_of_def)

lemma in_nbrs_of_Cons:
  "w \<in> nbrs_of (p # a) n \<longleftrightarrow> (fst p = n \<and> w \<in> set (snd p)) \<or> w \<in> nbrs_of a n"
  by (cases p) (auto simp: nbrs_of_def)

lemma nbrs_of_append: "nbrs_of (a @ b) n = nbrs_of a n \<union> nbrs_of b n"
  by (auto simp: nbrs_of_def)

lemma nbrs_of_keys: "v \<in> nbrs_of a n \<Longrightarrow> n \<in> fst ` set a"
  by (force simp: nbrs_of_def)

subsection \<open>add_node\<close>

lemma adj_add_node:
  "adj (add_node n G) = (if n \<in> fst ` set (adj G) then adj G else adj G @ [(n, [])])"
  by (simp add: add_node_def)

lemma keys_add_node: "fst ` set (adj (add_node n G)) = insert n (fst ` set (adj G))"
  by (auto simp: adj_add_node)

lemma nbrs_of_add_node: "nbrs_of (adj (add_node n G)) m = nbrs_of (adj G) m"
  by (auto simp: adj_add_node nbrs_of_def)

lemma adj_inv_add_node:
  assumes "adj_inv (adj G)"
  shows "adj_inv (adj (add_node n G))"
proof (cases "n \<in> fst ` set (adj G)")
  case True
  with assms show ?thesis by (simp add: adj_add_node)
next
  case False
  then have a: "adj (add_node n G) = adj G @ [(n, [])]" by (simp add: adj_add_node)
  from assms False have "distinct (map fst (adj G @ [(n, [])]))"
    by (simp add: adj_inv_def)
  moreover from assms have "\<forall>p \<in> set (adj G @ [(n, [])]). distinct (snd p)"
    by (simp add: adj_inv_def)
  moreover from assms have "\<forall>m v. v \<in> nbrs_of (adj (add_node n G)) m
      \<longrightarrow> m \<in> nbrs_of (adj (add_node n G)) v"
    unfolding nbrs_of_add_node by (simp add: adj_inv_def)
  ultimately show ?thesis unfolding adj_inv_def a [symmetric] by (simp add: a)
qed

subsection \<open>add_nbr\<close>

lemma add_nbr_Nil [simp]: "add_nbr u v [] = []"
  by (simp add: add_nbr_def)

lemma add_nbr_Cons:
  "add_nbr u v (p # a) =
     (if fst p = u then (u, if v \<in> set (snd p) then snd p else snd p @ [v]) else p)
     # add_nbr u v a"
  by (cases p) (simp add: add_nbr_def)

lemma map_fst_add_nbr: "map fst (add_nbr u v a) = map fst a"
  by (induction a) (simp_all add: add_nbr_Cons)

lemma keys_add_nbr: "fst ` set (add_nbr u v a) = fst ` set a"
  using map_fst_add_nbr [of u v a] by (metis set_map)

lemma in_nbrs_of_add_nbr:
  "w \<in> nbrs_of (add_nbr u v a) n
     \<longleftrightarrow> w \<in> nbrs_of a n \<or> (n = u \<and> w = v \<and> u \<in> fst ` set a)"
proof (induction a)
  case Nil
  then show ?case by simp
next
  case (Cons p a)
  show ?case
  proof (cases "fst p = u")
    case True
    then show ?thesis
      unfolding add_nbr_Cons in_nbrs_of_Cons Cons.IH by (cases "v \<in> set (snd p)") auto
  next
    case False
    then show ?thesis
      unfolding add_nbr_Cons in_nbrs_of_Cons Cons.IH by auto
  qed
qed

lemma distinct_nbrs_add_nbr:
  "\<forall>p \<in> set a. distinct (snd p) \<Longrightarrow> \<forall>p \<in> set (add_nbr u v a). distinct (snd p)"
  by (induction a) (simp_all add: add_nbr_Cons)

subsection \<open>add_edge\<close>

lemma adj_add_edge:
  "adj (add_edge u v G) = add_nbr v u (add_nbr u v (adj (add_node v (add_node u G))))"
  by (simp add: add_edge_def Let_def)

lemma keys_add_edge: "fst ` set (adj (add_edge u v G)) = insert u (insert v (fst ` set (adj G)))"
  unfolding adj_add_edge keys_add_nbr keys_add_node by blast

lemma in_nbrs_of_add_edge:
  "w \<in> nbrs_of (adj (add_edge u v G)) n
     \<longleftrightarrow> w \<in> nbrs_of (adj G) n \<or> (n = u \<and> w = v) \<or> (n = v \<and> w = u)"
  unfolding adj_add_edge in_nbrs_of_add_nbr keys_add_nbr keys_add_node nbrs_of_add_node
  by blast

lemma adj_inv_add_edge:
  assumes "adj_inv (adj G)"
  shows "adj_inv (adj (add_edge u v G))"
proof -
  let ?G2 = "add_node v (add_node u G)"
  have i2: "adj_inv (adj ?G2)" by (intro adj_inv_add_node assms)
  have "distinct (map fst (adj (add_edge u v G)))"
    using i2 by (simp add: adj_add_edge map_fst_add_nbr adj_inv_def)
  moreover have "\<forall>p \<in> set (adj (add_edge u v G)). distinct (snd p)"
    unfolding adj_add_edge using i2
    by (intro distinct_nbrs_add_nbr) (simp add: adj_inv_def)
  moreover have "\<forall>n w. w \<in> nbrs_of (adj (add_edge u v G)) n
      \<longrightarrow> n \<in> nbrs_of (adj (add_edge u v G)) w"
    using assms unfolding in_nbrs_of_add_edge adj_inv_def by blast
  ultimately show ?thesis unfolding adj_inv_def by blast
qed

lemma edge_set_add_edge:
  "edge_set (adj (add_edge u v G)) = insert {u, v} (edge_set (adj G))"
proof (intro set_eqI iffI)
  fix e
  assume "e \<in> edge_set (adj (add_edge u v G))"
  then obtain n w where e: "e = {n, w}" and "w \<in> nbrs_of (adj (add_edge u v G)) n"
    unfolding edge_set_def by blast
  then consider "w \<in> nbrs_of (adj G) n" | "n = u \<and> w = v" | "n = v \<and> w = u"
    unfolding in_nbrs_of_add_edge by blast
  then show "e \<in> insert {u, v} (edge_set (adj G))"
  proof cases
    case 1
    with e show ?thesis unfolding edge_set_def by blast
  next
    case 2
    with e show ?thesis by simp
  next
    case 3
    with e have "e = {u, v}" by (simp add: insert_commute)
    then show ?thesis by simp
  qed
next
  fix e
  assume "e \<in> insert {u, v} (edge_set (adj G))"
  then consider "e = {u, v}" | "e \<in> edge_set (adj G)" by blast
  then show "e \<in> edge_set (adj (add_edge u v G))"
  proof cases
    case 1
    have "v \<in> nbrs_of (adj (add_edge u v G)) u" unfolding in_nbrs_of_add_edge by simp
    with 1 show ?thesis unfolding edge_set_def by blast
  next
    case 2
    then obtain n w where "e = {n, w}" "w \<in> nbrs_of (adj G) n"
      unfolding edge_set_def by blast
    then have "e = {n, w}" "w \<in> nbrs_of (adj (add_edge u v G)) n"
      unfolding in_nbrs_of_add_edge by simp_all
    then show ?thesis unfolding edge_set_def by blast
  qed
qed


subsection \<open>edges\<close>

lemma in_edges_iter_Cons:
  "(x, y) \<in> set (edges_iter (p # rest) seen)
     \<longleftrightarrow> (x = fst p \<and> y \<in> set (snd p) \<and> y \<notin> set seen)
         \<or> (x, y) \<in> set (edges_iter rest (fst p # seen))"
  by (cases p) auto

lemma edges_iter_sub:
  "(x, y) \<in> set (edges_iter a seen) \<Longrightarrow> y \<in> nbrs_of a x \<and> y \<notin> set seen"
proof (induction a arbitrary: seen)
  case Nil
  then show ?case by simp
next
  case (Cons p a)
  from Cons.prems consider "x = fst p \<and> y \<in> set (snd p) \<and> y \<notin> set seen"
    | "(x, y) \<in> set (edges_iter a (fst p # seen))"
    unfolding in_edges_iter_Cons by blast
  then show ?case
  proof cases
    case 1
    then show ?thesis unfolding in_nbrs_of_Cons by simp
  next
    case 2
    from Cons.IH [OF 2] show ?thesis unfolding in_nbrs_of_Cons by simp
  qed
qed

lemma edges_iter_antisym:
  "distinct (map fst a) \<Longrightarrow> (x, y) \<in> set (edges_iter a seen) \<Longrightarrow>
   (y, x) \<in> set (edges_iter a seen) \<Longrightarrow> x = y"
proof (induction a arbitrary: seen)
  case Nil
  then show ?case by simp
next
  case (Cons p a)
  from Cons.prems(1) have d: "distinct (map fst a)" by simp
  from Cons.prems(2) consider (A1) "x = fst p" "y \<in> set (snd p)"
    | (A2) "(x, y) \<in> set (edges_iter a (fst p # seen))"
    unfolding in_edges_iter_Cons by blast
  then show ?case
  proof cases
    case A1
    from Cons.prems(3) consider (B1) "y = fst p"
      | (B2) "(y, x) \<in> set (edges_iter a (fst p # seen))"
      unfolding in_edges_iter_Cons by blast
    then show ?thesis
    proof cases
      case B1
      with A1 show ?thesis by simp
    next
      case B2
      from edges_iter_sub [OF B2] A1 show ?thesis by simp
    qed
  next
    case A2
    from Cons.prems(3) consider (B1) "y = fst p"
      | (B2) "(y, x) \<in> set (edges_iter a (fst p # seen))"
      unfolding in_edges_iter_Cons by blast
    then show ?thesis
    proof cases
      case B1
      from edges_iter_sub [OF A2] B1 show ?thesis by simp
    next
      case B2
      from Cons.IH [OF d A2 B2] show ?thesis .
    qed
  qed
qed

lemma edges_iter_complete:
  "distinct (map fst a) \<Longrightarrow> v \<in> nbrs_of a u \<Longrightarrow> u \<in> nbrs_of a v \<Longrightarrow>
   u \<notin> set seen \<Longrightarrow> v \<notin> set seen \<Longrightarrow>
   (u, v) \<in> set (edges_iter a seen) \<or> (v, u) \<in> set (edges_iter a seen)"
proof (induction a arbitrary: seen)
  case Nil
  then show ?case by simp
next
  case (Cons p a)
  from Cons.prems(1) have d: "distinct (map fst a)" and k: "fst p \<notin> fst ` set a" by simp_all
  consider (U) "fst p = u" "v \<in> set (snd p)" | (V) "fst p = v" "u \<in> set (snd p)"
    | (R) "v \<in> nbrs_of a u" "u \<in> nbrs_of a v"
    using Cons.prems(2,3) unfolding in_nbrs_of_Cons by blast
  then show ?case
  proof cases
    case U
    with Cons.prems(5) show ?thesis unfolding in_edges_iter_Cons by simp
  next
    case V
    with Cons.prems(4) show ?thesis unfolding in_edges_iter_Cons by simp
  next
    case R
    from R(1) k have "u \<noteq> fst p" using nbrs_of_keys by blast
    moreover from R(2) k have "v \<noteq> fst p" using nbrs_of_keys by blast
    ultimately have "u \<notin> set (fst p # seen)" "v \<notin> set (fst p # seen)"
      using Cons.prems(4,5) by simp_all
    from Cons.IH [OF d R this] show ?thesis unfolding in_edges_iter_Cons by blast
  qed
qed

lemma edges_iter_keys: "(x, y) \<in> set (edges_iter a seen) \<Longrightarrow> x \<in> fst ` set a"
  using edges_iter_sub nbrs_of_keys by blast

lemma edges_iter_distinct:
  "distinct (map fst a) \<Longrightarrow> \<forall>p \<in> set a. distinct (snd p) \<Longrightarrow> distinct (edges_iter a seen)"
proof (induction a arbitrary: seen)
  case Nil
  then show ?case by simp
next
  case (Cons p a)
  obtain n nbrs where p: "p = (n, nbrs)" by (cases p)
  from Cons.prems p have d: "distinct (map fst a)" and k: "n \<notin> fst ` set a"
    and dn: "distinct nbrs" and da: "\<forall>p \<in> set a. distinct (snd p)" by simp_all
  have 1: "distinct (map (Pair n) (filter (\<lambda>nbr. nbr \<notin> set seen) nbrs))"
    using dn by (simp add: distinct_map inj_on_def)
  have 2: "distinct (edges_iter a (n # seen))" by (rule Cons.IH [OF d da])
  have 3: "set (map (Pair n) (filter (\<lambda>nbr. nbr \<notin> set seen) nbrs))
             \<inter> set (edges_iter a (n # seen)) = {}"
  proof (rule ccontr)
    assume "\<not> ?thesis"
    then obtain e where "e \<in> set (map (Pair n) (filter (\<lambda>nbr. nbr \<notin> set seen) nbrs))"
      and e: "e \<in> set (edges_iter a (n # seen))" by blast
    then obtain y where "e = (n, y)" by auto
    with e k edges_iter_keys show False by blast
  qed
  from 1 2 3 show ?case unfolding p by simp
qed

lemma edges_one_between:
  assumes "adj_inv a" "v \<in> nbrs_of a u"
  shows "length (filter (\<lambda>(x, y). (x = u \<and> y = v) \<or> (x = v \<and> y = u)) (edges_iter a [])) = 1"
proof -
  let ?P = "\<lambda>(x, y). (x = u \<and> y = v) \<or> (x = v \<and> y = u)"
  let ?E = "set (edges_iter a [])"
  from assms have d: "distinct (map fst a)" and s: "u \<in> nbrs_of a v"
    by (simp_all add: adj_inv_def)
  from assms have "distinct (edges_iter a [])"
    by (intro edges_iter_distinct) (simp_all add: adj_inv_def)
  then have len: "length (filter ?P (edges_iter a [])) = card ({e. ?P e} \<inter> ?E)"
    by (rule distinct_length_filter)
  from edges_iter_complete [OF d assms(2) s, of "[]"]
  consider (1) "(u, v) \<in> ?E" | (2) "(v, u) \<in> ?E" by auto
  then have "\<exists>e. {e. ?P e} \<inter> ?E = {e}"
  proof cases
    case 1
    have "{e. ?P e} \<inter> ?E = {(u, v)}"
    proof (intro set_eqI iffI)
      fix e assume "e \<in> {e. ?P e} \<inter> ?E"
      then consider (a) "e = (u, v)" | (b) "e = (v, u)" "(v, u) \<in> ?E" by auto
      then show "e \<in> {(u, v)}"
      proof cases
        case a then show ?thesis by simp
      next
        case b
        from edges_iter_antisym [OF d 1 b(2)] b(1) show ?thesis by simp
      qed
    next
      fix e assume "e \<in> {(u, v)}"
      with 1 show "e \<in> {e. ?P e} \<inter> ?E" by simp
    qed
    then show ?thesis ..
  next
    case 2
    have "{e. ?P e} \<inter> ?E = {(v, u)}"
    proof (intro set_eqI iffI)
      fix e assume "e \<in> {e. ?P e} \<inter> ?E"
      then consider (a) "e = (v, u)" | (b) "e = (u, v)" "(u, v) \<in> ?E" by auto
      then show "e \<in> {(v, u)}"
      proof cases
        case a then show ?thesis by simp
      next
        case b
        from edges_iter_antisym [OF d 2 b(2)] b(1) show ?thesis by simp
      qed
    next
      fix e assume "e \<in> {(v, u)}"
      with 2 show "e \<in> {e. ?P e} \<inter> ?E" by simp
    qed
    then show ?thesis ..
  qed
  then obtain e where "{e. ?P e} \<inter> ?E = {e}" ..
  with len show ?thesis by simp
qed

lemma edges_image:
  assumes "adj_inv a"
  shows "(\<lambda>(x, y). {x, y}) ` set (edges_iter a []) = edge_set a"
proof (intro set_eqI iffI)
  fix e assume "e \<in> (\<lambda>(x, y). {x, y}) ` set (edges_iter a [])"
  then obtain x y where "e = {x, y}" "(x, y) \<in> set (edges_iter a [])" by auto
  with edges_iter_sub show "e \<in> edge_set a" unfolding edge_set_def by blast
next
  fix e assume "e \<in> edge_set a"
  then obtain n v where e: "e = {n, v}" and v: "v \<in> nbrs_of a n"
    unfolding edge_set_def by blast
  from assms v have d: "distinct (map fst a)" and s: "n \<in> nbrs_of a v"
    by (simp_all add: adj_inv_def)
  from edges_iter_complete [OF d v s, of "[]"]
  consider "(n, v) \<in> set (edges_iter a [])" | "(v, n) \<in> set (edges_iter a [])" by auto
  then show "e \<in> (\<lambda>(x, y). {x, y}) ` set (edges_iter a [])"
  proof cases
    case 1
    then have "(\<lambda>(x, y). {x, y}) (n, v) \<in> (\<lambda>(x, y). {x, y}) ` set (edges_iter a [])"
      by (rule imageI)
    with e show ?thesis by simp
  next
    case 2
    then have "(\<lambda>(x, y). {x, y}) (v, n) \<in> (\<lambda>(x, y). {x, y}) ` set (edges_iter a [])"
      by (rule imageI)
    with e show ?thesis by (simp add: insert_commute)
  qed
qed

lemma edges_inj:
  assumes "adj_inv a"
  shows "inj_on (\<lambda>(x, y). {x, y}) (set (edges_iter a []))"
proof (rule inj_onI)
  fix e e' assume e: "e \<in> set (edges_iter a [])" and e': "e' \<in> set (edges_iter a [])"
    and eq: "(\<lambda>(x, y). {x, y}) e = (\<lambda>(x, y). {x, y}) e'"
  obtain x y where xy: "e = (x, y)" by (cases e)
  obtain x' y' where xy': "e' = (x', y')" by (cases e')
  from assms have d: "distinct (map fst a)" by (simp add: adj_inv_def)
  from eq xy xy' have "{x, y} = {x', y'}" by simp
  then consider "x = x'" "y = y'" | "x = y'" "y = x'" by (auto simp: doubleton_eq_iff)
  then show "e = e'"
  proof cases
    case 1
    with xy xy' show ?thesis by simp
  next
    case 2
    with e e' xy xy' have "(x, y) \<in> set (edges_iter a [])" "(y, x) \<in> set (edges_iter a [])"
      by simp_all
    from edges_iter_antisym [OF d this] 2 xy xy' show ?thesis by simp
  qed
qed

lemma edges_length:
  assumes "adj_inv a"
  shows "length (edges_iter a []) = card (edge_set a)"
proof -
  from assms have "distinct (edges_iter a [])"
    by (intro edges_iter_distinct) (simp_all add: adj_inv_def)
  then have "length (edges_iter a []) = card (set (edges_iter a []))"
    by (simp add: distinct_card)
  also have "\<dots> = card ((\<lambda>(x, y). {x, y}) ` set (edges_iter a []))"
    by (rule card_image [OF edges_inj [OF assms], symmetric])
  finally show ?thesis unfolding edges_image [OF assms] .
qed

lemma edges_endpoints:
  assumes "adj_inv a"
  shows "l \<in> fst ` set (edges_iter a []) \<union> snd ` set (edges_iter a [])
         \<longleftrightarrow> (\<exists>w. w \<in> nbrs_of a l)"
proof
  assume "l \<in> fst ` set (edges_iter a []) \<union> snd ` set (edges_iter a [])"
  then consider y where "(l, y) \<in> set (edges_iter a [])"
    | x where "(x, l) \<in> set (edges_iter a [])" by force
  then show "\<exists>w. w \<in> nbrs_of a l"
  proof cases
    case 1
    with edges_iter_sub show ?thesis by blast
  next
    case 2
    then have "l \<in> nbrs_of a x" using edges_iter_sub by blast
    with assms have "x \<in> nbrs_of a l" by (simp add: adj_inv_def)
    then show ?thesis ..
  qed
next
  assume "\<exists>w. w \<in> nbrs_of a l"
  then obtain w where w: "w \<in> nbrs_of a l" ..
  from assms w have d: "distinct (map fst a)" and s: "l \<in> nbrs_of a w"
    by (simp_all add: adj_inv_def)
  from edges_iter_complete [OF d w s, of "[]"]
  consider "(l, w) \<in> set (edges_iter a [])" | "(w, l) \<in> set (edges_iter a [])" by auto
  then show "l \<in> fst ` set (edges_iter a []) \<union> snd ` set (edges_iter a [])"
    by cases force+
qed


section \<open>The graph after both passes\<close>

lemma adj_inv_Nil: "adj_inv []"
  by (simp add: adj_inv_def)

lemma entry_step_graph:
  assumes "entry_step ets el st = Inr st'"
  shows "(adj_inv (adj (fst st)) \<longrightarrow> adj_inv (adj (fst st')))
         \<and> nbrs_of (adj (fst st')) n = nbrs_of (adj (fst st)) n
         \<and> fst ` set (adj (fst st')) = fst ` set (adj (fst st)) \<union> {l. gene_label_of ets el l}"
proof (cases "accepted ets el")
  case False
  with entry_step_skip [OF assms] show ?thesis by (simp add: gene_label_of_def)
next
  case True
  from entry_step_accept [OF assms True] obtain i name l ty where
    d: "entry_descriptor el = Some (i, name, l, ty)"
    and g: "fst st' = (if ty = ''gene'' then add_node l (fst st) else fst st)" by blast
  show ?thesis
  proof (cases "ty = ''gene''")
    case gene: True
    from d gene True have "{l'. gene_label_of ets el l'} = {l}"
      by (auto simp: gene_label_of_def)
    with g gene show ?thesis
      by (simp add: adj_inv_add_node nbrs_of_add_node keys_add_node)
  next
    case other: False
    from d other have "{l'. gene_label_of ets el l'} = {}"
      by (auto simp: gene_label_of_def)
    with g other show ?thesis by simp
  qed
qed

lemma entries_loop_graph:
  "entries_loop ets els st = Inr st' \<Longrightarrow>
     (adj_inv (adj (fst st)) \<longrightarrow> adj_inv (adj (fst st')))
     \<and> nbrs_of (adj (fst st')) n = nbrs_of (adj (fst st)) n
     \<and> fst ` set (adj (fst st'))
         = fst ` set (adj (fst st)) \<union> {l. \<exists>el \<in> set els. gene_label_of ets el l}"
proof (induction els arbitrary: st)
  case Nil
  then show ?case by simp
next
  case (Cons el els)
  from Cons.prems obtain st1 where s1: "entry_step ets el st = Inr st1"
    and s2: "entries_loop ets els st1 = Inr st'"
    by (auto simp: bind_Inr_iff)
  note A = entry_step_graph [OF s1, of n]
  note B = Cons.IH [OF s2]
  have "adj_inv (adj (fst st)) \<longrightarrow> adj_inv (adj (fst st'))" using A B by blast
  moreover have "nbrs_of (adj (fst st')) n = nbrs_of (adj (fst st)) n" using A B by simp
  moreover have "fst ` set (adj (fst st'))
         = fst ` set (adj (fst st)) \<union> {l. \<exists>el \<in> set (el # els). gene_label_of ets el l}"
  proof -
    have "fst ` set (adj (fst st'))
        = (fst ` set (adj (fst st)) \<union> {l. gene_label_of ets el l})
          \<union> {l. \<exists>el \<in> set els. gene_label_of ets el l}"
      using A B by simp
    also have "\<dots> = fst ` set (adj (fst st)) \<union> {l. \<exists>el \<in> set (el # els). gene_label_of ets el l}"
      by auto
    finally show ?thesis .
  qed
  ultimately show ?case by blast
qed

lemma relations_loop_graph:
  "relations_loop nodes rels G = Inr G' \<Longrightarrow>
     (adj_inv (adj G) \<longrightarrow> adj_inv (adj G'))
     \<and> (\<forall>n w. w \<in> nbrs_of (adj G') n
           \<longleftrightarrow> w \<in> nbrs_of (adj G) n \<or> (\<exists>rel \<in> set rels. rel_edge nodes rel n w))
     \<and> fst ` set (adj G')
         = fst ` set (adj G) \<union> {l. \<exists>rel \<in> set rels. \<exists>w. rel_edge nodes rel l w}"
proof (induction rels arbitrary: G)
  case Nil
  then show ?case by simp
next
  case (Cons rel rels)
  from Cons.prems obtain G1 where s1: "relation_step nodes rel G = Inr G1"
    and s2: "relations_loop nodes rels G1 = Inr G'"
    by (auto simp: bind_Inr_iff)
  from s1 obtain a b where l: "relation_labels nodes rel = Some (a, b)"
    and G1: "G1 = add_edge a b G"
    unfolding relation_step_Inr_iff by blast
  have re: "\<And>n w. rel_edge nodes rel n w \<longleftrightarrow> (n = a \<and> w = b) \<or> (n = b \<and> w = a)"
    by (simp add: rel_edge_def l)
  note B = Cons.IH [OF s2]
  have 1: "adj_inv (adj G) \<longrightarrow> adj_inv (adj G')"
    using B adj_inv_add_edge [of G a b] unfolding G1 by blast
  have 2: "\<forall>n w. w \<in> nbrs_of (adj G') n
           \<longleftrightarrow> w \<in> nbrs_of (adj G) n \<or> (\<exists>rel \<in> set (rel # rels). rel_edge nodes rel n w)"
  proof (intro allI)
    fix n w
    have "w \<in> nbrs_of (adj G') n
        \<longleftrightarrow> w \<in> nbrs_of (adj G1) n \<or> (\<exists>rel \<in> set rels. rel_edge nodes rel n w)"
      using B by blast
    also have "w \<in> nbrs_of (adj G1) n \<longleftrightarrow> w \<in> nbrs_of (adj G) n \<or> rel_edge nodes rel n w"
      unfolding G1 in_nbrs_of_add_edge re ..
    finally show "w \<in> nbrs_of (adj G') n
           \<longleftrightarrow> w \<in> nbrs_of (adj G) n \<or> (\<exists>rel \<in> set (rel # rels). rel_edge nodes rel n w)"
      by auto
  qed
  have 3: "fst ` set (adj G')
         = fst ` set (adj G) \<union> {l. \<exists>rel \<in> set (rel # rels). \<exists>w. rel_edge nodes rel l w}"
  proof -
    have "fst ` set (adj G')
        = fst ` set (adj G1) \<union> {l. \<exists>rel \<in> set rels. \<exists>w. rel_edge nodes rel l w}"
      using B by blast
    also have "fst ` set (adj G1) = fst ` set (adj G) \<union> {l. \<exists>w. rel_edge nodes rel l w}"
      unfolding G1 keys_add_edge re by auto
    finally show ?thesis by auto
  qed
  from 1 2 3 show ?case by blast
qed


subsection \<open>The returned graph\<close>

lemma KGML2Graph_graph:
  assumes "KGML2Graph ver xmltree filetype = Inr r"
  shows "adj_inv (adj (res_graph r))"
    and "w \<in> nbrs_of (adj (res_graph r)) n
         \<longleftrightarrow> (\<exists>rel \<in> set (getiterator ''relation'' xmltree). rel_edge (res_nodes r) rel n w)"
    and "fst ` set (adj (res_graph r))
         = {l. \<exists>el \<in> set (getiterator ''entry'' xmltree). gene_label_of (entriestype filetype) el l}
           \<union> {l. \<exists>rel \<in> set (getiterator ''relation'' xmltree). \<exists>w. rel_edge (res_nodes r) rel l w}"
    and "list_all (\<lambda>rel. relation_labels (res_nodes r) rel \<noteq> None)
           (getiterator ''relation'' xmltree)"
proof -
  from assms obtain t st G where
    e: "entries_loop (entriestype filetype) (getiterator ''entry'' xmltree)
          (\<lparr>title = t, adj = []\<rparr>, []) = Inr st"
    and l: "relations_loop (snd st) (getiterator ''relation'' xmltree) (fst st) = Inr G"
    and r: "res_graph r = G" "res_nodes r = snd st"
    unfolding KGML2Graph_Inr_iff by auto
  note E = entries_loop_graph [OF e]
  note R = relations_loop_graph [OF l]
  have i: "adj_inv (adj (fst st))"
    by (rule mp [OF conjunct1 [OF E]]) (simp add: adj_inv_Nil)
  have nb: "\<And>m. nbrs_of (adj (fst st)) m = {}"
    using conjunct1 [OF conjunct2 [OF E]] by simp
  have k: "fst ` set (adj (fst st))
      = {l. \<exists>el \<in> set (getiterator ''entry'' xmltree). gene_label_of (entriestype filetype) el l}"
    using conjunct2 [OF conjunct2 [OF E]] by simp
  have R1: "adj_inv (adj G)" by (rule mp [OF conjunct1 [OF R] i])
  have R2: "w \<in> nbrs_of (adj G) n
      \<longleftrightarrow> w \<in> nbrs_of (adj (fst st)) n
          \<or> (\<exists>rel \<in> set (getiterator ''relation'' xmltree). rel_edge (snd st) rel n w)"
    by (rule spec [OF spec [OF conjunct1 [OF conjunct2 [OF R]]]])
  have R3: "fst ` set (adj G)
      = fst ` set (adj (fst st))
        \<union> {l. \<exists>rel \<in> set (getiterator ''relation'' xmltree). \<exists>w. rel_edge (snd st) rel l w}"
    by (rule conjunct2 [OF conjunct2 [OF R]])
  show "adj_inv (adj (res_graph r))" unfolding r by (rule R1)
  show "w \<in> nbrs_of (adj (res_graph r)) n
         \<longleftrightarrow> (\<exists>rel \<in> set (getiterator ''relation'' xmltree). rel_edge (res_nodes r) rel n w)"
    unfolding r R2 nb by simp
  show "fst ` set (adj (res_graph r))
         = {l. \<exists>el \<in> set (getiterator ''entry'' xmltree). gene_label_of (entriestype filetype) el l}
           \<union> {l. \<exists>rel \<in> set (getiterator ''relation'' xmltree). \<exists>w. rel_edge (res_nodes r) rel l w}"
    unfolding r R3 k ..
  have "\<exists>G'. relations_loop (snd st) (getiterator ''relation'' xmltree) (fst st) = Inr G'"
    using l by (rule exI)
  then show "list_all (\<lambda>rel. relation_labels (res_nodes r) rel \<noteq> None)
           (getiterator ''relation'' xmltree)"
    unfolding r relations_loop_ok_iff .
qed

lemma in_set_map_filter:
  "y \<in> set (List.map_filter f xs) \<longleftrightarrow> (\<exists>x \<in> set xs. f x = Some y)"
  by (induction xs) (auto split: option.splits)

lemma set_gene_labels:
  "set (gene_labels ets xmltree)
     = {l. \<exists>el \<in> set (getiterator ''entry'' xmltree). gene_label_of ets el l}"
proof (intro set_eqI)
  fix l
  have "\<And>el. (case entry_descriptor el of None \<Rightarrow> None
             | Some (i, name, l, ty) \<Rightarrow>
                 if accepted ets el \<and> ty = ''gene'' then Some l else None) = Some l
          \<longleftrightarrow> gene_label_of ets el l"
    unfolding gene_label_of_def by (auto split: option.splits if_splits)
  then show "l \<in> set (gene_labels ets xmltree)
      \<longleftrightarrow> l \<in> {l. \<exists>el \<in> set (getiterator ''entry'' xmltree). gene_label_of ets el l}"
    unfolding gene_labels_def in_set_map_filter by simp
qed

lemma set_edge_endpoints:
  "set (edge_endpoints G) = fst ` set (edges G) \<union> snd ` set (edges G)"
  unfolding edge_endpoints_def by force

lemma set_relation_endpoints:
  "set (relation_endpoints nodes xmltree)
     = {l. \<exists>rel \<in> set (getiterator ''relation'' xmltree). \<exists>w. rel_edge nodes rel l w}"
proof (intro set_eqI)
  fix l
  have one: "\<And>rel. l \<in> set (case relation_labels nodes rel of None \<Rightarrow> [] | Some (a, b) \<Rightarrow> [a, b])
      \<longleftrightarrow> (\<exists>w. rel_edge nodes rel l w)"
  proof -
    fix rel
    show "l \<in> set (case relation_labels nodes rel of None \<Rightarrow> [] | Some (a, b) \<Rightarrow> [a, b])
      \<longleftrightarrow> (\<exists>w. rel_edge nodes rel l w)"
    proof (cases "relation_labels nodes rel")
      case None
      then show ?thesis by (simp add: rel_edge_def)
    next
      case (Some ab)
      obtain a b where ab: "ab = (a, b)" by (cases ab)
      have "(\<exists>w. rel_edge nodes rel l w) \<longleftrightarrow> l = a \<or> l = b"
        unfolding rel_edge_def Some ab by auto
      then show ?thesis by (simp add: Some ab)
    qed
  qed
  show "l \<in> set (relation_endpoints nodes xmltree)
      \<longleftrightarrow> l \<in> {l. \<exists>rel \<in> set (getiterator ''relation'' xmltree). \<exists>w. rel_edge nodes rel l w}"
  proof -
    have "l \<in> set (relation_endpoints nodes xmltree)
        \<longleftrightarrow> (\<exists>rel \<in> set (getiterator ''relation'' xmltree).
              l \<in> set (case relation_labels nodes rel of None \<Rightarrow> [] | Some (a, b) \<Rightarrow> [a, b]))"
      unfolding relation_endpoints_def set_concat set_map by blast
    then show ?thesis by (simp only: one mem_Collect_eq)
  qed
qed

lemma sample_graph_facts:
  "graph_nodes (res_graph sample_result) = [''ALG8'', ''ALG2'', ''ALG12'', ''C00001'']"
  "gene_labels (entriestype ''organism'') sample_doc = [''ALG8'', ''ALG2'', ''ALG12'']"
  "edge_endpoints (res_graph sample_result) = [''ALG2'', ''ALG12'', ''ALG2'', ''C00001'']"
  "relation_endpoints (res_nodes sample_result) sample_doc
     = [''ALG12'', ''ALG2'', ''ALG2'', ''ALG12'', ''C00001'', ''ALG2'']"
  "edges (res_graph sample_result) = [(''ALG2'', ''ALG12''), (''ALG2'', ''C00001'')]"
  "length (getiterator ''relation'' sample_doc) = 3"
  by code_simp+

lemma edge_set_finite_bound:
  assumes "\<And>n w. w \<in> nbrs_of a n \<longleftrightarrow> (\<exists>rel \<in> set rels. rel_edge nodes rel n w)"
  shows "card (edge_set a) \<le> length rels"
proof -
  let ?f = "\<lambda>rel. case relation_labels nodes rel of None \<Rightarrow> {} | Some (a, b) \<Rightarrow> {a, b}"
  have "edge_set a \<subseteq> ?f ` set rels"
  proof
    fix e assume "e \<in> edge_set a"
    then obtain n w where e: "e = {n, w}" and "w \<in> nbrs_of a n"
      unfolding edge_set_def by blast
    with assms obtain rel where rel: "rel \<in> set rels" and "rel_edge nodes rel n w" by blast
    then obtain x y where l: "relation_labels nodes rel = Some (x, y)"
      and c: "(n = x \<and> w = y) \<or> (n = y \<and> w = x)"
      unfolding rel_edge_def by blast
    from c e have "e = {x, y}" by (auto simp: insert_commute)
    with l have "e = ?f rel" by simp
    then show "e \<in> ?f ` set rels" using rel by (rule image_eqI)
  qed
  then have "card (edge_set a) \<le> card (?f ` set rels)"
    by (intro card_mono) simp_all
  also have "\<dots> \<le> card (set rels)" by (intro card_image_le) simp
  also have "\<dots> \<le> length rels" by (rule card_length)
  finally show ?thesis .
qed

lemma sample_relation_facts:
  "getiterator ''relation'' sample_doc
     = [relation_el ''1'' ''2'', relation_el ''2'' ''1'', relation_el ''3'' ''2'']"
  "relation_labels (res_nodes sample_result) (relation_el ''1'' ''2'') = Some (''ALG12'', ''ALG2'')"
  "relation_labels (res_nodes sample_result) (relation_el ''2'' ''1'') = Some (''ALG2'', ''ALG12'')"
  by code_simp+

section \<open>The node set\<close>

text \<open>
  C2: the nodes of the returned graph are exactly the labels of the accepted entries of
  type gene together with the labels that occur as an endpoint of an edge, and the
  endpoints of the edges are exactly the labels the relations resolve to: an edge brings
  its two labels in as nodes whether or not an entry registered them.
\<close>

theorem node_set_is_genes_and_endpoints:
  "KGML2Graph ver xmltree filetype = Inr r \<Longrightarrow>
     set (graph_nodes (res_graph r))
       = set (gene_labels (entriestype filetype) xmltree) \<union> set (edge_endpoints (res_graph r))
     \<and> set (edge_endpoints (res_graph r)) = set (relation_endpoints (res_nodes r) xmltree)"
proof -
  assume k: "KGML2Graph ver xmltree filetype = Inr r"
  note G = KGML2Graph_graph [OF k]
  have ep: "set (edge_endpoints (res_graph r)) = set (relation_endpoints (res_nodes r) xmltree)"
  proof (intro set_eqI)
    fix l
    have "l \<in> set (edge_endpoints (res_graph r))
        \<longleftrightarrow> (\<exists>w. w \<in> nbrs_of (adj (res_graph r)) l)"
      unfolding set_edge_endpoints edges_def by (rule edges_endpoints [OF G(1)])
    also have "\<dots> \<longleftrightarrow> l \<in> set (relation_endpoints (res_nodes r) xmltree)"
      unfolding set_relation_endpoints G(2) by blast
    finally show "l \<in> set (edge_endpoints (res_graph r))
        \<longleftrightarrow> l \<in> set (relation_endpoints (res_nodes r) xmltree)" .
  qed
  have "set (graph_nodes (res_graph r)) = fst ` set (adj (res_graph r))"
    by (simp add: graph_nodes_def)
  also have "\<dots> = set (gene_labels (entriestype filetype) xmltree)
      \<union> set (relation_endpoints (res_nodes r) xmltree)"
    unfolding G(3) set_gene_labels set_relation_endpoints ..
  finally show ?thesis using ep by simp
qed

theorem node_set_is_genes_and_endpoints_witness:
  "KGML2Graph ET_1_2 sample_doc ''organism'' = Inr sample_result
   \<and> KGML2Graph ET_1_3 sample_doc ''organism'' = Inr sample_result
   \<and> set (graph_nodes (res_graph sample_result))
       = set (gene_labels (entriestype ''organism'') sample_doc)
         \<union> set (edge_endpoints (res_graph sample_result))
   \<and> set (edge_endpoints (res_graph sample_result))
       = set (relation_endpoints (res_nodes sample_result) sample_doc)
   \<and> graph_nodes (res_graph sample_result) = [''ALG8'', ''ALG2'', ''ALG12'', ''C00001'']
   \<and> gene_labels (entriestype ''organism'') sample_doc = [''ALG8'', ''ALG2'', ''ALG12'']
   \<and> edge_endpoints (res_graph sample_result) = [''ALG2'', ''ALG12'', ''ALG2'', ''C00001'']"
proof -
  note T = node_set_is_genes_and_endpoints [OF sample_doc_organism_both(2)]
  show ?thesis
    by (intro conjI sample_doc_organism_both(1) sample_doc_organism_both(2)
        conjunct1 [OF T] conjunct2 [OF T]
        sample_graph_facts(1) sample_graph_facts(2) sample_graph_facts(3))
qed

section \<open>Duplicate relations\<close>

text \<open>
  C6: for every relation of a converted document, \<^verbatim>\<open>G.edges()\<close> lists exactly one edge
  between the two labels the relation resolves to, however many relations resolve to
  that pair, and the graph has at most as many edges as the document has relations.
\<close>

theorem duplicate_relations_collapse:
  "(KGML2Graph ver xmltree filetype = Inr r \<and> rel \<in> set (getiterator ''relation'' xmltree) \<longrightarrow>
      (\<exists>a b. relation_labels (res_nodes r) rel = Some (a, b)
         \<and> length (filter (\<lambda>(x, y). (x = a \<and> y = b) \<or> (x = b \<and> y = a))
              (edges (res_graph r))) = 1))
   \<and> (KGML2Graph ver xmltree filetype = Inr r \<longrightarrow>
        length (edges (res_graph r)) \<le> length (getiterator ''relation'' xmltree))"
proof (intro conjI impI)
  assume a: "KGML2Graph ver xmltree filetype = Inr r \<and> rel \<in> set (getiterator ''relation'' xmltree)"
  then have k: "KGML2Graph ver xmltree filetype = Inr r"
    and rel: "rel \<in> set (getiterator ''relation'' xmltree)" by simp_all
  note G = KGML2Graph_graph [OF k]
  from G(4) rel obtain a b where l: "relation_labels (res_nodes r) rel = Some (a, b)"
    by (auto simp: list_all_iff)
  then have "rel_edge (res_nodes r) rel a b" by (simp add: rel_edge_def)
  with rel have "b \<in> nbrs_of (adj (res_graph r)) a" unfolding G(2) by blast
  from edges_one_between [OF G(1) this] l
  show "\<exists>a b. relation_labels (res_nodes r) rel = Some (a, b)
         \<and> length (filter (\<lambda>(x, y). (x = a \<and> y = b) \<or> (x = b \<and> y = a))
              (edges (res_graph r))) = 1"
    unfolding edges_def by blast
next
  assume k: "KGML2Graph ver xmltree filetype = Inr r"
  note G = KGML2Graph_graph [OF k]
  have "length (edges (res_graph r)) = card (edge_set (adj (res_graph r)))"
    unfolding edges_def by (rule edges_length [OF G(1)])
  also have "\<dots> \<le> length (getiterator ''relation'' xmltree)"
    by (rule edge_set_finite_bound [where nodes = "res_nodes r"]) (rule G(2))
  finally show "length (edges (res_graph r)) \<le> length (getiterator ''relation'' xmltree)" .
qed

theorem duplicate_relations_collapse_witness:
  "KGML2Graph ET_1_2 sample_doc ''organism'' = Inr sample_result
   \<and> KGML2Graph ET_1_3 sample_doc ''organism'' = Inr sample_result
   \<and> relation_el ''2'' ''1'' \<in> set (getiterator ''relation'' sample_doc)
   \<and> relation_labels (res_nodes sample_result) (relation_el ''1'' ''2'') = Some (''ALG12'', ''ALG2'')
   \<and> relation_labels (res_nodes sample_result) (relation_el ''2'' ''1'') = Some (''ALG2'', ''ALG12'')
   \<and> length (filter (\<lambda>(x, y). (x = ''ALG2'' \<and> y = ''ALG12'') \<or> (x = ''ALG12'' \<and> y = ''ALG2''))
        (edges (res_graph sample_result))) = 1
   \<and> length (edges (res_graph sample_result)) \<le> length (getiterator ''relation'' sample_doc)"
proof -
  let ?rel = "relation_el ''2'' ''1''"
  note T = duplicate_relations_collapse [of ET_1_3 sample_doc "''organism''" sample_result ?rel]
  have m: "?rel \<in> set (getiterator ''relation'' sample_doc)"
    by (simp add: sample_relation_facts(1))
  have "\<exists>a b. relation_labels (res_nodes sample_result) ?rel = Some (a, b)
         \<and> length (filter (\<lambda>(x, y). (x = a \<and> y = b) \<or> (x = b \<and> y = a))
              (edges (res_graph sample_result))) = 1"
    by (rule mp [OF conjunct1 [OF T] conjI [OF sample_doc_organism m]])
  then obtain a b where ab: "relation_labels (res_nodes sample_result) ?rel = Some (a, b)"
    and one: "length (filter (\<lambda>(x, y). (x = a \<and> y = b) \<or> (x = b \<and> y = a))
              (edges (res_graph sample_result))) = 1"
    by (elim exE conjE)
  from ab have "a = ''ALG2''" "b = ''ALG12''"
    unfolding sample_relation_facts(3) by simp_all
  with one have 1: "length (filter (\<lambda>(x, y). (x = ''ALG2'' \<and> y = ''ALG12'') \<or> (x = ''ALG12'' \<and> y = ''ALG2''))
        (edges (res_graph sample_result))) = 1" by simp
  have 2: "length (edges (res_graph sample_result)) \<le> length (getiterator ''relation'' sample_doc)"
    by (rule mp [OF conjunct2 [OF T] sample_doc_organism])
  show ?thesis
    by (intro conjI sample_doc_organism_both(1) sample_doc_organism_both(2) m
        sample_relation_facts(2) sample_relation_facts(3) 1 2)
qed

end
